theory Spec2Isabelle
  imports Main "HOL-Library.Word" "HOL-Library.List_Lexorder" "HOL-Library.Char_ord"
    "HOL-Library.Multiset"
begin

unbundle bit_operations_syntax

section \<open>The sync engine of pkg/sync/sync.go\<close>

text \<open>
  A shallow embedding of the functions of \<^verbatim>\<open>pkg/sync/sync.go\<close> that decide the
  properties below. Keys are Go strings, compared byte-wise: \<open>string\<close> with the
  lexicographic order of \<open>List_Lexorder\<close> over \<open>Char_ord\<close>. Go's \<open>int64\<close>
  arithmetic is written on \<open>int\<close> with the wrap-around spelled out (\<open>wrap64\<close>).
  Logging and the progress bars' totals (\<open>incrTotal\<close>, \<open>incrHandled\<close>) are not
  modelled; every channel send, deferred-deletion append, \<open>skipIt\<close> and
  \<open>extra.Increment\<close> is.
\<close>

subsection \<open>Constants and integer arithmetic\<close>

definition defaultPartSize :: int where
  "defaultPartSize = 5 * 2 ^ 20"


definition maxBlock :: int where
  "maxBlock = defaultPartSize * 2"

definition markDeleteSrc :: int where "markDeleteSrc = - 1"
definition markDeleteDst :: int where "markDeleteDst = - 2"
definition markCopyPerms :: int where "markCopyPerms = - 3"
definition markChecksum :: int where "markChecksum = - 4"

text \<open>The value an \<open>int64\<close> holds after an operation whose exact result is \<open>x\<close>.\<close>

definition wrap64 :: "int \<Rightarrow> int" where
  "wrap64 x = (x + 2 ^ 63) mod 2 ^ 64 - 2 ^ 63"

text \<open>Go's \<open>/\<close> on integers truncates towards zero; the caller checks the divisor.\<close>

definition quo :: "int \<Rightarrow> int \<Rightarrow> int" where
  "quo a b = sgn a * sgn b * (\<bar>a\<bar> div \<bar>b\<bar>)"

text \<open>\<open>x >> k\<close> on a signed integer is the arithmetic shift (rounds down), \<open>x << k\<close>
  multiplies and wraps.\<close>

definition shr64 :: "int \<Rightarrow> nat \<Rightarrow> int" where
  "shr64 x k = x div 2 ^ k"

definition shl64 :: "int \<Rightarrow> nat \<Rightarrow> int" where
  "shl64 x k = wrap64 (x * 2 ^ k)"

subsection \<open>Multipart limits and the part size\<close>

text \<open>Modelled from the spec: \<open>object.MultipartUpload\<close> and \<open>object.Limits\<close> are declared in
  the \<open>object\<close> package, outside the sources; the fields are the ones sync.go reads.\<close>

record MultipartUpload =
  MinPartSize :: int
  MaxCount :: int
  UploadID :: string

record Limits =
  IsSupportMultipartUpload :: bool
  IsSupportUploadPartCopy :: bool
  LimMinPartSize :: int
  MaxPartSize :: int
  LimMaxCount :: int

datatype panic = DivideByZero | NotAFile | IndexOutOfRange | LenOutOfRange | NilDereference

text \<open>\<open>choosePartSize\<close> (lines 659-669). A zero \<open>MaxCount\<close> makes the division panic.\<close>

definition choosePartSize :: "MultipartUpload \<Rightarrow> int \<Rightarrow> panic + int" where
  "choosePartSize upload sz =
     (let partSize = (if MinPartSize upload = 0 then defaultPartSize else MinPartSize upload) in
      if sz > wrap64 (partSize * MaxCount upload) then
        (if MaxCount upload = 0 then Inl DivideByZero
         else
           let partSize = wrap64 (quo sz (MaxCount upload));
               partSize = shl64 (wrap64 (shr64 (wrap64 (partSize - 1)) 20 + 1)) 20
           in Inr partSize)
      else Inr partSize)"

text \<open>The number of parts, as \<open>doCopyMultiple\<close> (line 752) and \<open>doCopyRange\<close> (line 698)
  compute it from the part size.\<close>

definition numParts :: "int \<Rightarrow> int \<Rightarrow> panic + int" where
  "numParts sz partSize =
     (if partSize = 0 then Inl DivideByZero
      else Inr (wrap64 (wrap64 (quo (wrap64 (sz - 1)) partSize) + 1)))"

text \<open>The part size in the spec's words: \<open>max(MinPartSize, ceil(size/MaxCount) rounded to
  MiB)\<close>, \<open>MinPartSize\<close> defaulting to 5 MiB when zero.\<close>

definition minPart :: "MultipartUpload \<Rightarrow> int" where
  "minPart upload = (if MinPartSize upload = 0 then defaultPartSize else MinPartSize upload)"

definition ceilDiv :: "int \<Rightarrow> int \<Rightarrow> int" where
  "ceilDiv a b = (a + b - 1) div b"

definition roundMiB :: "int \<Rightarrow> int" where
  "roundMiB x = ceilDiv x (2 ^ 20) * 2 ^ 20"

definition specPartSize :: "MultipartUpload \<Rightarrow> int \<Rightarrow> int" where
  "specPartSize upload sz = max (minPart upload) (roundMiB (ceilDiv sz (MaxCount upload)))"

subsection \<open>Errors and the retry policy\<close>

text \<open>Modelled from the spec: Go's \<open>error\<close> values and the sentinels \<open>utils.ErrSkipped\<close>,
  \<open>utils.ErrExtlink\<close> and \<open>utils.ENOTSUP\<close> are declared outside the sources. An error is what
  sync.go can observe of it: the identities on its \<open>Unwrap\<close> chain (what \<open>errors.Is\<close> and
  \<open>errors.As\<close> walk) and its message (\<open>Error()\<close>). \<open>nil\<close> is \<open>None\<close>. The errno numbers are
  those of Linux.\<close>

datatype ekind = KSkipped | KExtlink | KErrno nat | KOther

datatype goerr = GoErr (chain: "ekind list") (msg: string)

definition ErrSkipped :: goerr where "ErrSkipped = GoErr [KSkipped] ''skipped''"
definition ErrExtlink :: goerr where "ErrExtlink = GoErr [KExtlink] ''external link''"

definition EINTR :: nat where "EINTR = 4"
definition EIO :: nat where "EIO = 5"
definition EAGAIN :: nat where "EAGAIN = 11"
definition EBUSY :: nat where "EBUSY = 16"
definition ETIMEDOUT :: nat where "ETIMEDOUT = 110"

text \<open>\<open>errors.Is(err, target)\<close> for a sentinel target, and \<open>errors.As(err, &eno)\<close> for a
  \<open>syscall.Errno\<close>: the first errno on the chain.\<close>

definition errorsIs :: "goerr \<Rightarrow> ekind \<Rightarrow> bool" where
  "errorsIs e k = (k \<in> set (chain e))"

fun firstErrno :: "ekind list \<Rightarrow> nat option" where
  "firstErrno [] = None"
| "firstErrno (KErrno n # ks) = Some n"
| "firstErrno (k # ks) = firstErrno ks"

definition errorsAsErrno :: "goerr \<Rightarrow> nat option" where
  "errorsAsErrno e = firstErrno (chain e)"

text \<open>\<open>os.IsNotExist\<close> on the error of \<open>Head\<close>: the error carries \<open>ENOENT\<close>.\<close>

definition ENOENT :: nat where "ENOENT = 2"

definition osIsNotExist :: "goerr option \<Rightarrow> bool" where
  "osIsNotExist e = (case e of None \<Rightarrow> False | Some err \<Rightarrow> errorsAsErrno err = Some ENOENT)"

text \<open>\<open>shouldRetry\<close> (lines 224-239).\<close>

definition shouldRetry :: "goerr option \<Rightarrow> bool" where
  "shouldRetry err =
     (case err of
        None \<Rightarrow> False
      | Some e \<Rightarrow>
          if errorsIs e KSkipped \<or> errorsIs e KExtlink then False
          else (case errorsAsErrno e of
                  Some eno \<Rightarrow>
                    if eno = EAGAIN \<or> eno = EINTR \<or> eno = EBUSY \<or> eno = ETIMEDOUT \<or> eno = EIO
                    then True else False
                | None \<Rightarrow> True))"

text \<open>\<open>try\<close> (lines 241-251). The closure \<open>f\<close> acts on the state \<open>'s\<close> of everything it
  touches; the loop also returns the seconds it slept, one entry per \<open>time.Sleep\<close>. \<open>tryLoop\<close>
  is the loop from index \<open>i\<close> on, \<open>err\<close> the named result so far.\<close>

function tryLoop :: "nat \<Rightarrow> int \<Rightarrow> ('s \<Rightarrow> goerr option \<times> 's) \<Rightarrow> goerr option \<Rightarrow> 's \<Rightarrow> int list
    \<Rightarrow> goerr option \<times> 's \<times> int list" where
  "tryLoop i n f err s slept =
     (if int i < n then
        (case f s of (e, s') \<Rightarrow>
           if \<not> shouldRetry e then (e, s', slept)
           else tryLoop (i + 1) n f e s' (slept @ [int (i * i)]))
      else (err, s, slept))"
  by pat_completeness auto
termination
  by (relation "measure (\<lambda>(i, n, f, err, s, slept). nat (n - int i))") auto

definition tryN :: "int \<Rightarrow> ('s \<Rightarrow> goerr option \<times> 's) \<Rightarrow> 's \<Rightarrow> goerr option \<times> 's \<times> int list" where
  "tryN n f s = tryLoop 0 n f None s []"

text \<open>Instrumentation used to state how often an operation is called: \<open>logged f\<close> is \<open>f\<close>
  on a state that also records the result of every call, \<open>unlogged f\<close> is \<open>f\<close> on such a
  state, recording nothing.\<close>

definition logged :: "('s \<Rightarrow> 'r \<times> 's) \<Rightarrow> 'r list \<times> 's \<Rightarrow> 'r \<times> 'r list \<times> 's" where
  "logged f = (\<lambda>(tr, s). case f s of (e, s') \<Rightarrow> (e, tr @ [e], s'))"

definition unlogged :: "('s \<Rightarrow> 'r \<times> 's) \<Rightarrow> 'l \<times> 's \<Rightarrow> 'r \<times> 'l \<times> 's" where
  "unlogged f = (\<lambda>(tr, s). case f s of (e, s') \<Rightarrow> (e, tr, s'))"

text \<open>\<open>deleteObj\<close> (lines 253-267), with the two progress counters it increments.\<close>

record bars =
  deleted :: int
  failed :: int

definition deleteObj :: "(string \<Rightarrow> 's \<Rightarrow> goerr option \<times> 's) \<Rightarrow> string \<Rightarrow> bool \<Rightarrow> 's \<times> bars \<Rightarrow> 's \<times> bars" where
  "deleteObj storageDelete key dry = (\<lambda>(s, b).
     if dry then (s, b\<lparr>deleted := deleted b + 1\<rparr>)
     else (case tryN 3 (storageDelete key) s of
             (err, s', slept) \<Rightarrow>
               if err = None then (s', b\<lparr>deleted := deleted b + 1\<rparr>)
               else (s', b\<lparr>failed := failed b + 1\<rparr>)))"

text \<open>\<open>CopyData\<close> (lines 805-838). Its three collaborators are parameters acting on the
  state of the stores: \<open>dst.CreateMultipartUpload(key)\<close>, \<open>doCopySingle\<close> and
  \<open>doCopyMultiple\<close> (each returns the checksum and the error).\<close>

definition ENOTSUP :: goerr where
  "ENOTSUP = GoErr [KErrno 95] ''operation not supported''"

definition CopyData ::
  "('s \<Rightarrow> (goerr + MultipartUpload) \<times> 's)
   \<Rightarrow> ('s \<Rightarrow> (32 word \<times> goerr option) \<times> 's)
   \<Rightarrow> (MultipartUpload \<Rightarrow> 's \<Rightarrow> (32 word \<times> goerr option) \<times> 's)
   \<Rightarrow> int \<Rightarrow> 's \<Rightarrow> (32 word \<times> goerr option) \<times> 's" where
  "CopyData createMultipartUpload doCopySingle doCopyMultiple sz s =
     (let single = (\<lambda>(srcChksum, s). case doCopySingle s of ((c, e), s') \<Rightarrow> (e, (c, s')));
          create = (\<lambda>(upload, s). case createMultipartUpload s of
                      (Inl e, s') \<Rightarrow> (Some e, (None, s'))
                    | (Inr up, s') \<Rightarrow> (None, (Some up, s')))
      in
      if sz < maxBlock then
        (case tryN 3 single (0, s) of (err, (srcChksum, s'), slept) \<Rightarrow> ((srcChksum, err), s'))
      else
        (case createMultipartUpload s of
           (Inr upload, s1) \<Rightarrow> doCopyMultiple upload s1
         | (Inl e, s1) \<Rightarrow>
             if e = ENOTSUP then
               (case tryN 3 single (0, s1) of (err, (srcChksum, s'), slept) \<Rightarrow> ((srcChksum, err), s'))
             else
               (case tryN 2 create (None, s1) of
                  (None, (Some upload, s2), slept) \<Rightarrow> doCopyMultiple upload s2
                | (err, (upload, s2), slept) \<Rightarrow> ((0, err), s2))))"

subsection \<open>Objects, tasks and the configuration\<close>

text \<open>Modelled from the spec: the object descriptor (\<open>object.Object\<close>, and \<open>object.File\<close> for
  the POSIX attributes) is an interface of the \<open>object\<close> package, outside the sources. A
  descriptor that is not an \<open>object.File\<close> has no attributes. \<open>Mtime\<close> is in nanoseconds since
  the epoch; \<open>Unix()\<close> rounds it down to seconds.\<close>

record fattrs =
  Mode :: nat
  Owner :: string
  Group :: string

record object =
  Key :: string
  Size :: int
  Mtime :: int
  IsDir :: bool
  IsSymlink :: bool
  File :: "fattrs option"

definition unixSec :: "int \<Rightarrow> int" where
  "unixSec t = t div 1000000000"

text \<open>\<open>withSize\<close> and \<open>withoutSize\<close> (lines 994-1027): what travels through the task channel
  is a descriptor, or a descriptor wrapped with the size that marks the action.\<close>

datatype task = Plain object | Sized object int

definition withSize :: "object \<Rightarrow> int \<Rightarrow> task" where
  "withSize o' nsize = Sized o' nsize"

fun withoutSize :: "task \<Rightarrow> object" where
  "withoutSize (Plain o') = o'"
| "withoutSize (Sized o' nsize) = o'"

fun taskSize :: "task \<Rightarrow> int" where
  "taskSize (Plain o') = Size o'"
| "taskSize (Sized o' nsize) = nsize"

fun taskKey :: "task \<Rightarrow> string" where
  "taskKey (Plain o') = Key o'"
| "taskKey (Sized o' nsize) = Key o'"

text \<open>Modelled from the spec: \<open>Config\<close> is declared in another file of the package; these are
  the fields the producer reads. \<open>Limit\<close> is the one it writes, so the record is threaded
  through the loop.\<close>

record config =
  Limit :: int
  Dirs :: bool
  Links :: bool
  Perms :: bool
  Existing :: bool
  IgnoreExisting :: bool
  Update :: bool
  ForceUpdate :: bool
  CheckAll :: bool
  DeleteSrc :: bool
  DeleteDst :: bool

text \<open>What the producer does, in order: a send on the task channel, a call of \<open>skipIt\<close>, an
  append to \<open>srcDelayDel\<close> or \<open>dstDelayDel\<close>, an increment of the \<open>extra\<close> counters.\<close>

datatype event =
  Send task
| SkipIt object
| SrcDelayDel string
| DstDelayDel string
| Extra object

text \<open>How \<open>produce\<close> ends: \<open>return nil\<close>, the listing-failed error, or a panic.\<close>

datatype outcome = ReturnNil | ListingFailed | Panicked panic

subsection \<open>The producer\<close>

text \<open>\<open>needCopyPerms\<close> (lines 269-273): both type assertions panic on a descriptor that is
  not an \<open>object.File\<close>.\<close>

definition needCopyPerms :: "object \<Rightarrow> object \<Rightarrow> panic + bool" where
  "needCopyPerms o1 o2 =
     (case File o1 of
        None \<Rightarrow> Inl NotAFile
      | Some f1 \<Rightarrow>
          (case File o2 of
             None \<Rightarrow> Inl NotAFile
           | Some f2 \<Rightarrow> Inr (Mode f2 \<noteq> Mode f1 \<or> Owner f2 \<noteq> Owner f1 \<or> Group f2 \<noteq> Group f1)))"

text \<open>\<open>handleExtraObject\<close> (lines 1034-1051): the configuration after it, what it did, and
  its result (true when the limit is used up).\<close>

definition handleExtraObject :: "config \<Rightarrow> object \<Rightarrow> config \<times> event list \<times> bool" where
  "handleExtraObject cfg dstobj =
     (if \<not> DeleteDst cfg \<or> (\<not> Dirs cfg \<and> IsDir dstobj) \<or> Limit cfg = 0 then
        (cfg, [Extra dstobj], False)
      else
        (let cfg' = cfg\<lparr>Limit := Limit cfg - 1\<rparr> in
         (cfg',
          (if IsDir dstobj then [DstDelayDel (Key dstobj)]
           else [Send (withSize dstobj markDeleteDst)]),
          Limit cfg' = 0)))"

text \<open>\<open>filter\<close> (lines 1255-1276) over a listing stream: a \<open>nil\<close> (\<open>None\<close>) is passed on and
  ends the stream. \<open>filterKey\<close> (size, age and time windows, include and exclude rules) is
  the parameter \<open>keep\<close>.\<close>

fun filterStream :: "(object \<Rightarrow> bool) \<Rightarrow> object option list \<Rightarrow> object option list" where
  "filterStream keep [] = []"
| "filterStream keep (None # keys) = [None]"
| "filterStream keep (Some o' # keys) =
     (if keep o' then Some o' # filterStream keep keys else filterStream keep keys)"

text \<open>Lines 1121-1134: with no buffered destination object, read the destination stream up
  to the first key that is not below \<open>obj\<close>'s. \<open>Inl\<close> is a return from \<open>produce\<close>, \<open>Inr\<close> the
  buffered object and the rest of the stream.\<close>

fun skipLower :: "config \<Rightarrow> object \<Rightarrow> object option list
    \<Rightarrow> config \<times> event list \<times> (outcome + object option \<times> object option list)" where
  "skipLower cfg obj [] = (cfg, [], Inr (None, []))"
| "skipLower cfg obj (None # dstkeys) = (cfg, [], Inl ListingFailed)"
| "skipLower cfg obj (Some dstobj # dstkeys) =
     (if Key obj \<le> Key dstobj then (cfg, [], Inr (Some dstobj, dstkeys))
      else
        (case handleExtraObject cfg dstobj of
           (cfg', ev, stop) \<Rightarrow>
             if stop then (cfg', ev, Inl ReturnNil)
             else (case skipLower cfg' obj dstkeys of
                     (cfg'', ev', r) \<Rightarrow> (cfg'', ev @ ev', r))))"

text \<open>Lines 1115-1134: the buffered object is dropped as extra when its key is below
  \<open>obj\<close>'s, and the stream is read when nothing is buffered.\<close>

definition advanceDst :: "config \<Rightarrow> object \<Rightarrow> object option \<Rightarrow> object option list
    \<Rightarrow> config \<times> event list \<times> (outcome + object option \<times> object option list)" where
  "advanceDst cfg obj dstobj dstkeys =
     (case dstobj of
        None \<Rightarrow> skipLower cfg obj dstkeys
      | Some d \<Rightarrow>
          if Key obj > Key d then
            (case handleExtraObject cfg d of
               (cfg', ev, stop) \<Rightarrow>
                 if stop then (cfg', ev, Inl ReturnNil)
                 else (case skipLower cfg' obj dstkeys of
                         (cfg'', ev', r) \<Rightarrow> (cfg'', ev @ ev', r)))
          else (cfg, [], Inr (Some d, dstkeys)))"

text \<open>Lines 1137-1171: the decision for \<open>obj\<close> against the buffered destination object, and
  the buffer after it.\<close>

definition decide :: "config \<Rightarrow> object \<Rightarrow> object option \<Rightarrow> panic + event list \<times> object option" where
  "decide cfg obj dstobj =
     (case (case dstobj of None \<Rightarrow> None | Some d \<Rightarrow> if Key obj < Key d then None else Some d) of
        None \<Rightarrow>
          if Existing cfg then Inr ([SkipIt obj], dstobj)
          else Inr ([Send (Plain obj)], dstobj)
      | Some d \<Rightarrow>
          if IgnoreExisting cfg then Inr ([SkipIt obj], None)
          else if ForceUpdate cfg \<or>
                  (Update cfg \<and> unixSec (Mtime obj) > unixSec (Mtime d)) \<or>
                  (\<not> Update cfg \<and> Size obj \<noteq> Size d) then
            Inr ([Send (Plain obj)], None)
          else if Update cfg \<and> unixSec (Mtime obj) < unixSec (Mtime d) then
            Inr ([SkipIt obj], None)
          else if CheckAll cfg then
            Inr ([Send (withSize obj markChecksum)], None)
          else if DeleteSrc cfg then
            (if IsDir obj then Inr ([SrcDelayDel (Key obj)], None)
             else Inr ([Send (withSize obj markDeleteSrc)], None))
          else if Perms cfg then
            (case needCopyPerms obj d of
               Inl p \<Rightarrow> Inl p
             | Inr True \<Rightarrow> Inr ([Send (withSize obj markCopyPerms)], None)
             | Inr False \<Rightarrow> Inr ([SkipIt obj], None))
          else Inr ([SkipIt obj], None))"

text \<open>Lines 1179-1186: the rest of the destination stream, when \<open>DeleteDst\<close> is set.\<close>

fun drainAll :: "config \<Rightarrow> object option list \<Rightarrow> event list \<times> outcome" where
  "drainAll cfg [] = ([], ReturnNil)"
| "drainAll cfg (None # dstkeys) = ([], ListingFailed)"
| "drainAll cfg (Some dstobj # dstkeys) =
     (case handleExtraObject cfg dstobj of
        (cfg', ev, stop) \<Rightarrow>
          if stop then (ev, ReturnNil)
          else (case drainAll cfg' dstkeys of (ev', out) \<Rightarrow> (ev @ ev', out)))"

text \<open>Lines 1173-1188: after the source stream is exhausted.\<close>

definition drainRest :: "config \<Rightarrow> object option \<Rightarrow> object option list \<Rightarrow> event list \<times> outcome" where
  "drainRest cfg dstobj dstkeys =
     (if DeleteDst cfg then
        (case dstobj of
           None \<Rightarrow> drainAll cfg dstkeys
         | Some d \<Rightarrow>
             (case handleExtraObject cfg d of
                (cfg', ev, stop) \<Rightarrow>
                  if stop then (ev, ReturnNil)
                  else (case drainAll cfg' dstkeys of (ev', out) \<Rightarrow> (ev @ ev', out))))
      else ([], ReturnNil))"

text \<open>The loop over the source stream (lines 1099-1172) and what follows it.\<close>

fun produceLoop :: "config \<Rightarrow> object option \<Rightarrow> object option list \<Rightarrow> object option list
    \<Rightarrow> event list \<times> outcome" where
  "produceLoop cfg dstobj [] dstkeys = drainRest cfg dstobj dstkeys"
| "produceLoop cfg dstobj (None # srckeys) dstkeys = ([], ListingFailed)"
| "produceLoop cfg dstobj (Some obj # srckeys) dstkeys =
     (if \<not> Dirs cfg \<and> IsDir obj then produceLoop cfg dstobj srckeys dstkeys
      else if Limit cfg \<ge> 0 \<and> Limit cfg = 0 then ([], ReturnNil)
      else
        (case advanceDst (if Limit cfg \<ge> 0 then cfg\<lparr>Limit := Limit cfg - 1\<rparr> else cfg)
                obj dstobj dstkeys of
           (cfg', ev, Inl out) \<Rightarrow> (ev, out)
         | (cfg', ev, Inr (dstobj', dstkeys')) \<Rightarrow>
             (case decide cfg' obj dstobj' of
                Inl p \<Rightarrow> (ev, Panicked p)
              | Inr (ev', dstobj'') \<Rightarrow>
                  (case produceLoop cfg' dstobj'' srckeys dstkeys' of
                     (evs, out) \<Rightarrow> (ev @ ev' @ evs, out)))))"

text \<open>\<open>produce\<close> (lines 1076-1189): both streams are filtered, nothing is buffered.\<close>

definition produce :: "config \<Rightarrow> (object \<Rightarrow> bool) \<Rightarrow> object option list \<Rightarrow> object option list
    \<Rightarrow> event list \<times> outcome" where
  "produce cfg keep srckeys dstkeys =
     produceLoop cfg None (filterStream keep srckeys) (filterStream keep dstkeys)"

text \<open>Modelled from the spec: the stores are outside the sources. What the producers ask
  of them acts on the state \<open>'w\<close> of the stores: \<open>Head(key)\<close> (an object or an error),
  \<open>ListAll(store, prefix, start, end, !config.Links)\<close> and \<open>listCommonPrefix(store, prefix,
  cp, !config.Links)\<close> (its stream never holds \<open>nil\<close>), each for the source or the
  destination store.\<close>

datatype side = SrcStore | DstStore

definition errorf :: "string \<Rightarrow> goerr" where
  "errorf m = GoErr [KOther] m"

record 'w listers =
  StoreHead :: "side \<Rightarrow> string \<Rightarrow> 'w \<Rightarrow> (goerr + object) \<times> 'w"
  StoreListAll :: "side \<Rightarrow> string \<Rightarrow> 'w \<Rightarrow> (goerr + object option list) \<times> 'w"
  StoreListCommonPrefix :: "side \<Rightarrow> string \<Rightarrow> 'w \<Rightarrow> (goerr + object list) \<times> 'w"
  StoreName :: "side \<Rightarrow> string"

text \<open>\<open>startSingleProducer\<close> (lines 1053-1074): the error, or what \<open>produce\<close> did and how it
  ended.\<close>

definition startSingleProducer :: "'w listers \<Rightarrow> config \<Rightarrow> (object \<Rightarrow> bool) \<Rightarrow> string \<Rightarrow> 'w
    \<Rightarrow> (goerr + event list \<times> outcome) \<times> 'w" where
  "startSingleProducer ls cfg keep prefix w =
     (case StoreListAll ls SrcStore prefix w of
        (Inl err, w1) \<Rightarrow> (Inl (errorf (''list '' @ StoreName ls SrcStore @ '': '' @ msg err)), w1)
      | (Inr srckeys, w1) \<Rightarrow>
          if ForceUpdate cfg then (Inr (produce cfg keep srckeys []), w1)
          else
            (case StoreListAll ls DstStore prefix w1 of
               (Inl err, w2) \<Rightarrow>
                 (Inl (errorf (''list '' @ StoreName ls DstStore @ '': '' @ msg err)), w2)
             | (Inr dstkeys, w2) \<Rightarrow> (Inr (produce cfg keep srckeys dstkeys), w2)))"

text \<open>\<open>produceSingleObject\<close> (lines 1510-1535): the error it returns, or what the \<open>produce\<close>
  it ran did (it returns \<open>nil\<close> then, whatever \<open>produce\<close> returned).\<close>

definition hasSuffix :: "string \<Rightarrow> string \<Rightarrow> bool" where
  "hasSuffix s suffix = (length suffix \<le> length s \<and> drop (length s - length suffix) s = suffix)"

definition ignoreDir :: goerr where
  "ignoreDir = GoErr [KOther] ''ignore dir''"

definition produceSingleObject :: "'w listers \<Rightarrow> config \<Rightarrow> (object \<Rightarrow> bool) \<Rightarrow> string \<Rightarrow> 'w
    \<Rightarrow> (goerr + event list \<times> outcome) \<times> 'w" where
  "produceSingleObject ls cfg keep key w =
     (case StoreHead ls SrcStore key w of
        (Inl err, w1) \<Rightarrow> (Inl err, w1)
      | (Inr obj, w1) \<Rightarrow>
          if \<not> IsDir obj \<or> IsSymlink obj \<and> Links cfg \<or> IsDir obj \<and> Dirs cfg \<and> hasSuffix key ''/'' then
            (case StoreHead ls DstStore key w1 of
               (Inr dobj, w2) \<Rightarrow> (Inr (produce cfg keep [Some obj] [Some dobj]), w2)
             | (Inl e, w2) \<Rightarrow>
                 if osIsNotExist (Some e) then (Inr (produce cfg keep [Some obj] []), w2)
                 else (Inl e, w2))
          else (Inl ignoreDir, w1))"

text \<open>\<open>startProducer\<close> (lines 1537-1628) for one prefix. \<open>nrules\<close> is \<open>len(config.rules)\<close>,
  \<open>listThreads\<close> is \<open>config.ListThreads\<close>. \<open>startProducerListing\<close> is the function from line
  1547 on. The dispatch of the common prefixes to further producers runs in other
  goroutines, which call \<open>startProducer\<close> again; it is not modelled, nor is the semaphore
  \<open>concurrentList\<close>.\<close>

definition startProducerListing :: "'w listers \<Rightarrow> config \<Rightarrow> (object \<Rightarrow> bool) \<Rightarrow> int \<Rightarrow> int \<Rightarrow> string \<Rightarrow> 'w
    \<Rightarrow> (goerr + event list \<times> outcome) \<times> 'w" where
  "startProducerListing ls cfg keep listThreads listDepth prefix w =
     (if listThreads \<le> 1 \<or> listDepth \<le> 0 then startSingleProducer ls cfg keep prefix w
      else
        (case StoreListCommonPrefix ls SrcStore prefix w of
           (Inl err, w2) \<Rightarrow>
             if err = ENOTSUP then startSingleProducer ls cfg keep prefix w2
             else (Inl (errorf (''list '' @ StoreName ls SrcStore @ '' with delimiter: '' @ msg err)), w2)
         | (Inr srckeys, w2) \<Rightarrow>
             if ForceUpdate cfg then (Inr (produce cfg keep (map Some srckeys) []), w2)
             else
               (case StoreListCommonPrefix ls DstStore prefix w2 of
                  (Inl err, w3) \<Rightarrow>
                    if err = ENOTSUP then startSingleProducer ls cfg keep prefix w3
                    else (Inl (errorf (''list '' @ StoreName ls DstStore @ '' with delimiter: '' @
                                       msg err)), w3)
                | (Inr dstkeys, w3) \<Rightarrow>
                    (Inr (produce cfg keep (map Some srckeys) (map Some dstkeys)), w3))))"

definition startProducer :: "'w listers \<Rightarrow> config \<Rightarrow> (object \<Rightarrow> bool) \<Rightarrow> nat \<Rightarrow> int \<Rightarrow> int \<Rightarrow> string \<Rightarrow> 'w
    \<Rightarrow> (goerr + event list \<times> outcome) \<times> 'w" where
  "startProducer ls cfg keep nrules listThreads listDepth prefix w =
     (if Limit cfg = 1 \<and> nrules = 0 then
        (case produceSingleObject ls cfg keep prefix w of
           (Inr r, w1) \<Rightarrow> (Inr r, w1)
         | (Inl err, w1) \<Rightarrow> startProducerListing ls cfg keep listThreads listDepth prefix w1)
      else startProducerListing ls cfg keep listThreads listDepth prefix w)"

text \<open>Lines 1469-1484 of \<open>produceFromList\<close>: what a worker does with one key of the list.
  An error of \<open>startProducer\<close> is logged and counted there; here it is the result.\<close>

definition produceFromListKey :: "'w listers \<Rightarrow> config \<Rightarrow> (object \<Rightarrow> bool) \<Rightarrow> nat \<Rightarrow> int \<Rightarrow> int \<Rightarrow> string
    \<Rightarrow> 'w \<Rightarrow> (goerr + event list \<times> outcome) \<times> 'w" where
  "produceFromListKey ls cfg keep nrules listThreads listDepth key w =
     (if \<not> hasSuffix key ''/'' then
        (case produceSingleObject ls cfg keep key w of
           (Inr r, w1) \<Rightarrow> (Inr r, w1)
         | (Inl err, w1) \<Rightarrow>
             startProducer ls cfg keep nrules listThreads listDepth
               (if err = ignoreDir then key @ ''/'' else key) w1)
      else startProducer ls cfg keep nrules listThreads listDepth key w)"

text \<open>The calls made on the stores, each with what it returned, for stating which store
  is listed: \<open>tracedListers ls\<close> is \<open>ls\<close> on a state that also lists them.\<close>

datatype lcall =
  LHead side string "goerr + object"
| LListAll side string "goerr + object option list"
| LListCommonPrefix side string "goerr + object list"

fun listsDst :: "lcall \<Rightarrow> bool" where
  "listsDst (LListAll s p r) = (s = DstStore)"
| "listsDst (LListCommonPrefix s p r) = (s = DstStore)"
| "listsDst (LHead s k r) = False"

fun asksDst :: "lcall \<Rightarrow> bool" where
  "asksDst (LListAll s p r) = (s = DstStore)"
| "asksDst (LListCommonPrefix s p r) = (s = DstStore)"
| "asksDst (LHead s k r) = (s = DstStore)"

definition record_lcall :: "('r \<Rightarrow> lcall) \<Rightarrow> ('w \<Rightarrow> 'r \<times> 'w) \<Rightarrow> lcall list \<times> 'w \<Rightarrow> 'r \<times> lcall list \<times> 'w" where
  "record_lcall c f = (\<lambda>(tr, w). case f w of (r, w') \<Rightarrow> (r, (tr @ [c r], w')))"

definition tracedListers :: "'w listers \<Rightarrow> (lcall list \<times> 'w) listers" where
  "tracedListers ls =
     \<lparr> StoreHead = (\<lambda>s key. record_lcall (LHead s key) (StoreHead ls s key)),
       StoreListAll = (\<lambda>s prefix. record_lcall (LListAll s prefix) (StoreListAll ls s prefix)),
       StoreListCommonPrefix = (\<lambda>s prefix.
         record_lcall (LListCommonPrefix s prefix) (StoreListCommonPrefix ls s prefix)),
       StoreName = StoreName ls \<rparr>"

text \<open>The source listing a traced run fed to the merger: the stream \<open>ListAll\<close> returned, or
  the objects \<open>listCommonPrefix\<close> returned.\<close>

fun sourceListing :: "lcall \<Rightarrow> object option list option" where
  "sourceListing (LListAll s p (Inr keys)) = (if s = SrcStore then Some keys else None)"
| "sourceListing (LListCommonPrefix s p (Inr objs)) = (if s = SrcStore then Some (map Some objs) else None)"
| "sourceListing c = None"

subsection \<open>The decision table and the extra keys, in the spec's words\<close>

text \<open>The decision table of the merger for a source object and the destination object
  with the same key, if there is one: the rows in order, modification times compared in
  whole seconds.\<close>

definition tableAction :: "config \<Rightarrow> object \<Rightarrow> object option \<Rightarrow> event" where
  "tableAction cfg obj dst =
     (case dst of
        None \<Rightarrow> if Existing cfg then SkipIt obj else Send (Plain obj)
      | Some d \<Rightarrow>
          if IgnoreExisting cfg then SkipIt obj
          else if ForceUpdate cfg \<or>
                  (Update cfg \<and> unixSec (Mtime obj) > unixSec (Mtime d)) \<or>
                  (\<not> Update cfg \<and> Size obj \<noteq> Size d) then Send (Plain obj)
          else if Update cfg \<and> unixSec (Mtime d) > unixSec (Mtime obj) then SkipIt obj
          else if CheckAll cfg then Send (Sized obj markChecksum)
          else if DeleteSrc cfg then
            (if IsDir obj then SrcDelayDel (Key obj) else Send (Sized obj markDeleteSrc))
          else if Perms cfg \<and> File obj \<noteq> File d then Send (Sized obj markCopyPerms)
          else SkipIt obj)"

text \<open>What happens to a destination object that the merger treats as extra.\<close>

definition extraAction :: "config \<Rightarrow> object \<Rightarrow> event" where
  "extraAction cfg d =
     (if \<not> DeleteDst cfg \<or> (\<not> Dirs cfg \<and> IsDir d) then Extra d
      else if IsDir d then DstDelayDel (Key d)
      else Send (Sized d markDeleteDst))"

text \<open>The events that concern a destination key, and the key an event is about.\<close>

fun fromDst :: "event \<Rightarrow> bool" where
  "fromDst (Extra d) = True"
| "fromDst (DstDelayDel k) = True"
| "fromDst (Send (Sized d n)) = (n = markDeleteDst)"
| "fromDst e = False"

fun eventKey :: "event \<Rightarrow> string" where
  "eventKey (Send t) = taskKey t"
| "eventKey (SkipIt obj) = Key obj"
| "eventKey (SrcDelayDel k) = k"
| "eventKey (DstDelayDel k) = k"
| "eventKey (Extra d) = Key d"

text \<open>The source objects the merger decides on (directories are dropped when \<open>Dirs\<close> is
  off), the destination object with the key of a source object, and the destination
  objects that are extra: no processed source key is equal, and either a processed source
  key is greater or \<open>DeleteDst\<close> is set (the rest of the destination stream is only read
  then).\<close>

definition kept :: "config \<Rightarrow> object list \<Rightarrow> object list" where
  "kept cfg S = filter (\<lambda>obj. Dirs cfg \<or> \<not> IsDir obj) S"

definition matching :: "object list \<Rightarrow> object \<Rightarrow> object option" where
  "matching D obj = find (\<lambda>d. Key d = Key obj) D"

definition isExtra :: "config \<Rightarrow> object list \<Rightarrow> object \<Rightarrow> bool" where
  "isExtra cfg S d = (Key d \<notin> Key ` set S \<and> (DeleteDst cfg \<or> (\<exists>s \<in> set S. Key d < Key s)))"

text \<open>Two configurations that differ at most in \<open>Limit\<close>.\<close>

definition sameFlags :: "config \<Rightarrow> config \<Rightarrow> bool" where
  "sameFlags c c' = (c'\<lparr>Limit := 0\<rparr> = c\<lparr>Limit := 0\<rparr>)"

text \<open>The destination stream after the merger has passed the key \<open>k\<close>, and the object it
  matched there.\<close>

definition restAfter :: "string \<Rightarrow> object list \<Rightarrow> object list" where
  "restAfter k D = (case dropWhile (\<lambda>d. Key d < k) D of
                      [] \<Rightarrow> []
                    | d # ds \<Rightarrow> if k < Key d then d # ds else ds)"

definition matchedAt :: "string \<Rightarrow> object list \<Rightarrow> object option" where
  "matchedAt k D = (case dropWhile (\<lambda>d. Key d < k) D of
                      [] \<Rightarrow> None
                    | d # ds \<Rightarrow> if k < Key d then None else Some d)"

text \<open>Example values: a regular file, a directory, and the configuration with every
  policy off and no limit.\<close>

definition fileObj :: "string \<Rightarrow> int \<Rightarrow> int \<Rightarrow> object" where
  "fileObj k sz t = \<lparr>Key = k, Size = sz, Mtime = t, IsDir = False, IsSymlink = False, File = None\<rparr>"

definition dirObj :: "string \<Rightarrow> object" where
  "dirObj k = \<lparr>Key = k, Size = 0, Mtime = 0, IsDir = True, IsSymlink = False, File = None\<rparr>"

definition plainConfig :: config where
  "plainConfig = \<lparr>Limit = - 1, Dirs = False, Links = False, Perms = False, Existing = False,
     IgnoreExisting = False, Update = False, ForceUpdate = False, CheckAll = False,
     DeleteSrc = False, DeleteDst = False\<rparr>"

text \<open>Example stores for the producers: every \<open>Head\<close> and every listing of a store answers
  with the objects given for it.\<close>

definition listedStores :: "(side \<Rightarrow> object list) \<Rightarrow> unit listers" where
  "listedStores objs =
     \<lparr> StoreHead = (\<lambda>s key w.
         (case find (\<lambda>obj. Key obj = key) (objs s) of
            None \<Rightarrow> Inl (GoErr [KErrno ENOENT] ''no such file or directory'')
          | Some obj \<Rightarrow> Inr obj, w)),
       StoreListAll = (\<lambda>s prefix w. (Inr (map Some (objs s)), w)),
       StoreListCommonPrefix = (\<lambda>s prefix w. (Inr (objs s), w)),
       StoreName = (\<lambda>s. if s = SrcStore then ''file:///src/'' else ''file:///dst/'') \<rparr>"

definition twoStores :: "side \<Rightarrow> object list" where
  "twoStores s = (if s = SrcStore then [fileObj ''a'' 1 0, fileObj ''b'' 2 0]
                  else [fileObj ''a'' 3 0, fileObj ''c'' 3 0])"

subsection \<open>Deferred directory deletions\<close>

text \<open>\<open>delayDelFunc\<close> (lines 1801-1810 of \<open>Sync\<close>): \<open>sort.Strings\<close>, then the loop from the last
  index down to 0. \<open>delayLoop keys n\<close> is the loop with \<open>i = n - 1\<close>.\<close>

fun delayLoop :: "(string \<Rightarrow> 's \<Rightarrow> goerr option \<times> 's) \<Rightarrow> bool \<Rightarrow> string list \<Rightarrow> nat
    \<Rightarrow> 's \<times> bars \<Rightarrow> 's \<times> bars" where
  "delayLoop storageDelete dry keys 0 st = st"
| "delayLoop storageDelete dry keys (Suc i) st =
     delayLoop storageDelete dry keys i (deleteObj storageDelete (keys ! i) dry st)"

definition delayDelFunc :: "(string \<Rightarrow> 's \<Rightarrow> goerr option \<times> 's) \<Rightarrow> bool \<Rightarrow> string list
    \<Rightarrow> 's \<times> bars \<Rightarrow> 's \<times> bars" where
  "delayDelFunc storageDelete dry keys st =
     (let keys' = (if length keys > 0 then sort keys else keys)
      in delayLoop storageDelete dry keys' (length keys') st)"

text \<open>Lines 1798-1825 of \<open>Sync\<close>, what follows \<open>wg.Wait()\<close>: \<open>st\<close> is the state of the two stores
  and the counters when every worker has returned. The two sides run in two goroutines on
  different stores; the model runs the source side first.\<close>

definition syncDeferred :: "string \<Rightarrow> bool
    \<Rightarrow> (string \<Rightarrow> 'a \<Rightarrow> goerr option \<times> 'a) \<Rightarrow> (string \<Rightarrow> 'b \<Rightarrow> goerr option \<times> 'b)
    \<Rightarrow> string list \<Rightarrow> string list \<Rightarrow> 'a \<times> 'b \<times> bars \<Rightarrow> 'a \<times> 'b \<times> bars" where
  "syncDeferred manager dry srcDelete dstDelete srcDelayDel dstDelayDel st =
     (case st of (src, dst, b) \<Rightarrow>
        if manager = '''' then
          (case delayDelFunc srcDelete dry srcDelayDel (src, b) of
             (src', b') \<Rightarrow>
               (case delayDelFunc dstDelete dry dstDelayDel (dst, b') of
                  (dst', b'') \<Rightarrow> (src', dst', b'')))
        else (src, dst, b))"

text \<open>A store that records the key of every \<open>Delete\<close> call it receives and never fails.\<close>

definition recordingDelete :: "string \<Rightarrow> string list \<Rightarrow> goerr option \<times> string list" where
  "recordingDelete k calls = (None, calls @ [k])"

text \<open>\<open>x\<close> occurs before \<open>y\<close> in a sequence.\<close>

definition before :: "'a \<Rightarrow> 'a \<Rightarrow> 'a list \<Rightarrow> bool" where
  "before x y xs = (\<exists>as bs cs. xs = as @ x # bs @ y # cs)"

subsection \<open>Listing a store\<close>

text \<open>Modelled from the spec: the object-store driver (\<open>object.ObjectStorage\<close>) and
  \<open>object.ListAllWithDelimiter\<close> are outside the sources. A store is the operations
  \<open>ListAll\<close> uses, each acting on the state \<open>'w\<close> of the store: \<open>Head(key)\<close>, the streaming
  \<open>ListAll(prefix, marker, followLink)\<close> (the objects its channel delivers until it is
  closed) and \<open>List(prefix, marker, token, delimiter, limit, followLink)\<close>, which returns a
  page: the objects, \<open>hasMore\<close> and the next token.\<close>

type_synonym page = "object list \<times> bool \<times> string"

record 'w store =
  Head :: "string \<Rightarrow> 'w \<Rightarrow> (goerr + object) \<times> 'w"
  StreamAll :: "string \<Rightarrow> string \<Rightarrow> bool \<Rightarrow> 'w \<Rightarrow> (goerr + object option list) \<times> 'w"
  List :: "string \<Rightarrow> string \<Rightarrow> string \<Rightarrow> string \<Rightarrow> int \<Rightarrow> bool \<Rightarrow> 'w \<Rightarrow> (goerr + page) \<times> 'w"

definition maxResults :: int where
  "maxResults = 1000"

definition hasPrefix :: "string \<Rightarrow> string \<Rightarrow> bool" where
  "hasPrefix s prefix = (take (length prefix) s = prefix)"

text \<open>Lines 136-142: the objects of the store's own stream are passed on up to the first
  key above \<open>end\<close>.\<close>

fun forwardStream :: "string \<Rightarrow> object option list \<Rightarrow> object option list" where
  "forwardStream end' [] = []"
| "forwardStream end' (None # ch) = None # forwardStream end' ch"
| "forwardStream end' (Some obj # ch) =
     (if end' \<noteq> [] \<and> Key obj > end' then [] else Some obj # forwardStream end' ch)"

text \<open>Lines 166-180, the loop over one page: what is sent, \<open>lastkey\<close> and \<open>first\<close> after it,
  and whether it left the outer loop (\<open>break END\<close>).\<close>

fun emitPage :: "string \<Rightarrow> object list \<Rightarrow> string \<Rightarrow> bool
    \<Rightarrow> object option list \<times> string \<times> bool \<times> bool" where
  "emitPage end' [] lastkey first = ([], lastkey, first, False)"
| "emitPage end' (obj # objs) lastkey first =
     (if \<not> first \<and> Key obj \<le> lastkey then ([None], lastkey, first, True)
      else if end' \<noteq> [] \<and> Key obj > end' then ([], lastkey, first, True)
      else (case emitPage end' objs (Key obj) False of
              (out, lastkey', first', stop) \<Rightarrow> (Some obj # out, lastkey', first', stop)))"

text \<open>Lines 189-198: \<open>List\<close>, called again up to three times while it fails (the 100 ms
  pauses are left out).\<close>

fun listAgain :: "nat \<Rightarrow> ('w \<Rightarrow> (goerr + page) \<times> 'w) \<Rightarrow> (goerr + page) \<times> 'w \<Rightarrow> (goerr + page) \<times> 'w" where
  "listAgain 0 call r = r"
| "listAgain (Suc n) call (Inl err, w) = listAgain n call (call w)"
| "listAgain (Suc n) call (Inr p, w) = (Inr p, w)"

definition listRetry :: "('w \<Rightarrow> (goerr + page) \<times> 'w) \<Rightarrow> 'w \<Rightarrow> (goerr + page) \<times> 'w" where
  "listRetry call w = listAgain 3 call (call w)"

text \<open>Lines 161-213, the paging goroutine: what it sends, and whether it closed the channel.
  A store may answer \<open>hasMore\<close> for ever; the first argument bounds the number of pages, and
  a stream that is not yet closed is the result when it runs out.\<close>

fun pageLoop :: "nat \<Rightarrow> 'w store \<Rightarrow> string \<Rightarrow> string \<Rightarrow> bool \<Rightarrow> object list \<Rightarrow> bool \<Rightarrow> string
    \<Rightarrow> string \<Rightarrow> bool \<Rightarrow> 'w \<Rightarrow> (object option list \<times> bool) \<times> 'w" where
  "pageLoop 0 store prefix end' followLink objs hasMore nextToken lastkey first w = (([], False), w)"
| "pageLoop (Suc n) store prefix end' followLink objs hasMore nextToken lastkey first w =
     (case emitPage end' objs lastkey first of
        (out, lastkey', first', stop) \<Rightarrow>
          if stop then ((out, True), w)
          else if \<not> hasMore then ((out, True), w)
          else
            (case listRetry (List store prefix lastkey' nextToken [] maxResults followLink) w of
               (Inl err, w') \<Rightarrow> ((out @ [None], True), w')
             | (Inr (objs', hasMore', nextToken2), w') \<Rightarrow>
                 (case pageLoop n store prefix end' followLink
                         (if length objs' > 0 \<and> Key (hd objs') = lastkey' then tl objs' else objs')
                         hasMore' nextToken2 lastkey' first' w' of
                    ((out', closed), w'') \<Rightarrow> ((out @ out', closed), w''))))"

text \<open>Lines 125-132: the start key is looked up on its own, and the object is sent first
  when \<open>Head\<close> finds it.\<close>

definition startObject :: "'w store \<Rightarrow> string \<Rightarrow> string \<Rightarrow> 'w \<Rightarrow> object option list \<times> 'w" where
  "startObject store prefix start w =
     (if start \<noteq> [] \<and> hasPrefix start prefix then
        (case Head store start w of
           (Inr obj, w1) \<Rightarrow> ([Some obj], w1)
         | (Inl err, w1) \<Rightarrow> ([], w1))
      else ([], w))"

text \<open>\<open>ListAll\<close> (lines 119-215): the error, or the stream and whether it is closed.
  \<open>listAllWithDelimiter\<close> stands for \<open>object.ListAllWithDelimiter\<close>.\<close>

definition ListAll :: "nat \<Rightarrow> 'w store
    \<Rightarrow> ('w \<Rightarrow> (goerr + object option list \<times> bool) \<times> 'w)
    \<Rightarrow> string \<Rightarrow> string \<Rightarrow> string \<Rightarrow> bool \<Rightarrow> 'w
    \<Rightarrow> (goerr + object option list \<times> bool) \<times> 'w" where
  "ListAll fuel store listAllWithDelimiter prefix start end' followLink w =
     (case startObject store prefix start w of
        (found, w1) \<Rightarrow>
          (case StreamAll store prefix start followLink w1 of
             (Inr ch, w2) \<Rightarrow> (Inr (found @ forwardStream end' ch, True), w2)
           | (Inl err, w2) \<Rightarrow>
               if \<not> errorsIs err (KErrno 95) then (Inl err, w2)
               else
                 (case List store prefix start [] [] maxResults followLink w2 of
                    (Inl err', w3) \<Rightarrow>
                      if errorsIs err' (KErrno 95) then listAllWithDelimiter w3
                      else (Inl err', w3)
                  | (Inr (objs, hasMore, nextToken), w3) \<Rightarrow>
                      (case pageLoop fuel store prefix end' followLink objs hasMore nextToken
                              [] True w3 of
                         ((out, closed), w4) \<Rightarrow> (Inr (found @ out, closed), w4)))))"

text \<open>A stream whose keys are strictly ascending, above \<open>bound\<close> if there is one, and that
  holds \<open>nil\<close> only as its last element.\<close>

fun ascending :: "string option \<Rightarrow> object option list \<Rightarrow> bool" where
  "ascending bound [] = True"
| "ascending bound (None # xs) = (xs = [])"
| "ascending bound (Some obj # xs) =
     ((case bound of None \<Rightarrow> True | Some k \<Rightarrow> k < Key obj) \<and> ascending (Some (Key obj)) xs)"

text \<open>The bound that \<open>lastkey\<close> and \<open>first\<close> stand for: no key yet, or the last key sent.\<close>

definition sentBound :: "bool \<Rightarrow> string \<Rightarrow> string option" where
  "sentBound first lastkey = (if first then None else Some lastkey)"

text \<open>The pages a run was given: \<open>recordingList store\<close> is \<open>store\<close> on a state that also lists
  what every call of \<open>List\<close> returned. \<open>okPages\<close> are the objects of the pages among these
  results.\<close>

definition recordingList :: "'w store \<Rightarrow> ((goerr + page) list \<times> 'w) store" where
  "recordingList store =
     \<lparr>Head = (\<lambda>k. unlogged (Head store k)),
      StreamAll = (\<lambda>p m f. unlogged (StreamAll store p m f)),
      List = (\<lambda>p m t d l f. logged (List store p m t d l f))\<rparr>"

fun okPages :: "(goerr + page) list \<Rightarrow> object list list" where
  "okPages [] = []"
| "okPages (Inl err # rs) = okPages rs"
| "okPages (Inr (objs, hasMore, nextToken) # rs) = objs # okPages rs"

text \<open>The objects of the pages as the goroutine reads them: the first object of a page
  after the first is left out when its key is the marker, the last key read before that
  page (lines 207-210).\<close>

fun laterObjects :: "string \<Rightarrow> object list list \<Rightarrow> object list" where
  "laterObjects marker [] = []"
| "laterObjects marker (objs # pages) =
     (let objs' = (if length objs > 0 \<and> Key (hd objs) = marker then tl objs else objs)
      in objs' @ laterObjects (if objs' = [] then marker else Key (last objs')) pages)"

fun pageObjects :: "object list list \<Rightarrow> object list" where
  "pageObjects [] = []"
| "pageObjects (objs # pages) = objs @ laterObjects (if objs = [] then [] else Key (last objs)) pages"

text \<open>Objects in place: the keys strictly ascending and none above a non-empty \<open>end\<close>.\<close>

definition inPlace :: "string \<Rightarrow> object list \<Rightarrow> bool" where
  "inPlace end' objs =
     (ascending None (map Some objs) \<and> (\<forall>obj \<in> set objs. end' = [] \<or> Key obj \<le> end'))"

text \<open>Whether the last call of \<open>List\<close> failed.\<close>

definition lastFailed :: "(goerr + page) list \<Rightarrow> bool" where
  "lastFailed log = (log \<noteq> [] \<and> isl (last log))"

text \<open>Example stores: one with a stream of its own that delivers \<open>b\<close> before \<open>a\<close>, and one
  without, whose pages are taken from a list (the state is the number of \<open>List\<close> calls).\<close>

definition streamingStore :: "nat store" where
  "streamingStore =
     \<lparr>Head = (\<lambda>k w. (Inl (errorf ''not found''), w)),
      StreamAll = (\<lambda>p m f w. (Inr [Some (fileObj ''b'' 1 0), Some (fileObj ''a'' 1 0)], w)),
      List = (\<lambda>p m t d l f w. (Inl ENOTSUP, w))\<rparr>"

definition pagedStore :: "page list \<Rightarrow> nat store" where
  "pagedStore pages =
     \<lparr>Head = (\<lambda>k w. (Inl (errorf ''not found''), w)),
      StreamAll = (\<lambda>p m f w. (Inl ENOTSUP, w)),
      List = (\<lambda>p m t d l f w.
                (if w < length pages then Inr (pages ! w) else Inl (errorf ''EOF''), Suc w))\<rparr>"

subsection \<open>Readers and the byte-wise comparison\<close>

text \<open>Modelled from the spec: \<open>io.Reader\<close>, \<open>io.ReadFull\<close>, \<open>crc32.Update\<close> and the stores'
  \<open>Get\<close> are outside the sources. A reader is the chunks of bytes its \<open>Read\<close> calls will
  still deliver, one chunk (or the part of it that fits the buffer) per call, and the error
  it fails with after them (\<open>None\<close>: it ends with \<open>io.EOF\<close>).\<close>

type_synonym byte = "8 word"

datatype reader = Reader (chunks: "byte list list") (failure: "goerr option")

definition pending :: "reader \<Rightarrow> byte list" where
  "pending r = concat (chunks r)"

definition EOF :: goerr where
  "EOF = GoErr [KOther] ''EOF''"

definition ErrUnexpectedEOF :: goerr where
  "ErrUnexpectedEOF = GoErr [KOther] ''unexpected EOF''"

text \<open>\<open>Read(p)\<close> with a buffer of \<open>n\<close> bytes: the bytes and the error, and the reader after
  the call.\<close>

fun readOnce :: "reader \<Rightarrow> nat \<Rightarrow> (byte list \<times> goerr option) \<times> reader" where
  "readOnce (Reader [] f) n =
     (([], Some (case f of None \<Rightarrow> EOF | Some e \<Rightarrow> e)), Reader [] f)"
| "readOnce (Reader (c # cs) f) n =
     ((take n c, None), Reader (if n < length c then drop n c # cs else cs) f)"

text \<open>\<open>chksumReader.Read\<close> (lines 90-96): the state is the running checksum and the wrapped
  reader; \<open>crc chksum p\<close> stands for \<open>crc32.Update(chksum, crcTable, p)\<close>.\<close>

definition chksumRead :: "(32 word \<Rightarrow> byte list \<Rightarrow> 32 word) \<Rightarrow> bool \<Rightarrow> 32 word \<times> reader \<Rightarrow> nat
    \<Rightarrow> (byte list \<times> goerr option) \<times> 32 word \<times> reader" where
  "chksumRead crc cal st n =
     (case st of (chksum, r) \<Rightarrow>
        (case readOnce r n of
           ((p, err), r') \<Rightarrow> ((p, err), (if cal then crc chksum p else chksum), r')))"

text \<open>\<open>io.ReadFull\<close> through a \<open>chksumReader\<close>: \<open>Read\<close> is called on what is left of the buffer
  until it is full or a call fails; \<open>need\<close> is what is left to fill, \<open>got\<close> what was read.
  A failed call leaves the buffer short: the error is \<open>ErrUnexpectedEOF\<close> when it is
  \<open>io.EOF\<close> after some bytes.\<close>

fun readLoop :: "(32 word \<Rightarrow> byte list \<Rightarrow> 32 word) \<Rightarrow> bool \<Rightarrow> byte list list \<Rightarrow> goerr option
    \<Rightarrow> nat \<Rightarrow> byte list \<Rightarrow> 32 word \<Rightarrow> ((goerr + byte list) \<times> 32 word) \<times> reader" where
  "readLoop crc cal cs f 0 got chksum = ((Inr got, chksum), Reader cs f)"
| "readLoop crc cal [] f (Suc m) got chksum =
     ((Inl (case f of
              Some e \<Rightarrow> e
            | None \<Rightarrow> if got = [] then EOF else ErrUnexpectedEOF),
       (if cal then crc chksum [] else chksum)),
      Reader [] f)"
| "readLoop crc cal (c # cs) f (Suc m) got chksum =
     (if Suc m < length c then
        ((Inr (got @ take (Suc m) c), (if cal then crc chksum (take (Suc m) c) else chksum)),
         Reader (drop (Suc m) c # cs) f)
      else readLoop crc cal cs f (Suc m - length c) (got @ c)
             (if cal then crc chksum c else chksum))"

definition readFullChk :: "(32 word \<Rightarrow> byte list \<Rightarrow> 32 word) \<Rightarrow> bool \<Rightarrow> 32 word \<times> reader \<Rightarrow> nat
    \<Rightarrow> (goerr + byte list) \<times> 32 word \<times> reader" where
  "readFullChk crc cal st n =
     (case st of (chksum, r) \<Rightarrow>
        (case readLoop crc cal (chunks r) (failure r) n [] chksum of
           ((res, chksum'), r') \<Rightarrow> (res, chksum', r')))"




text \<open>Lines 425-430: the errors of the parts are received in the order the goroutines
  deliver them, up to the first that is not \<open>nil\<close>.\<close>

fun firstError :: "goerr option list \<Rightarrow> goerr option" where
  "firstError [] = None"
| "firstError (None # errs) = firstError errs"
| "firstError (Some e # errs) = Some e"




subsection \<open>The copy engine\<close>

text \<open>Modelled from the spec: \<open>object.ObjectStorage\<close>, \<open>object.Part\<close>, the parallel downloader,
  the temporary file, \<open>crc32.Update\<close> and \<open>crc32combine.CRC32Combine\<close> are outside the
  sources. The operations sync.go calls on the two stores act on a state \<open>'w\<close> of
  everything outside the program.\<close>

record Part =
  PartNum :: int
  PartLen :: int
  ETag :: string

text \<open>\<open>Put(key, in)\<close> is handed a reader: what it does is a finite exchange with it, a
  \<open>Read\<close> with a buffer of some size, whose result decides how it goes on, until it returns
  its error.\<close>

datatype 'w putter =
  Return "goerr option" 'w
| ReadInto nat "byte list \<times> goerr option \<Rightarrow> 'w putter"

record 'w stores =
  SrcGet :: "string \<Rightarrow> int \<Rightarrow> int \<Rightarrow> 'w \<Rightarrow> (goerr + reader) \<times> 'w"
  SrcHead :: "string \<Rightarrow> 'w \<Rightarrow> goerr option \<times> 'w"
  SrcIsFileSystem :: bool
  SrcFastStreamRead :: bool
  Downloader :: "string \<Rightarrow> int \<Rightarrow> 'w \<Rightarrow> reader \<times> 'w"
  TempCreate :: "goerr option"
  TempWrite :: "goerr option"
  TempSeek :: "goerr option"
  DstPut :: "string \<Rightarrow> 'w \<Rightarrow> 'w putter"
  DstLimits :: Limits
  DstString :: string
  DstIsFileSystem :: bool
  DstReadInMem :: bool
  DstStreamWrite :: bool
  CreateMultipartUpload :: "string \<Rightarrow> 'w \<Rightarrow> (goerr + MultipartUpload) \<times> 'w"
  UploadPart :: "string \<Rightarrow> string \<Rightarrow> int \<Rightarrow> byte list \<Rightarrow> 'w \<Rightarrow> (Part option \<times> goerr option) \<times> 'w"
  UploadPartCopy :: "string \<Rightarrow> string \<Rightarrow> int \<Rightarrow> string \<Rightarrow> int \<Rightarrow> int \<Rightarrow> 'w
    \<Rightarrow> (Part option \<times> goerr option) \<times> 'w"
  CompleteUpload :: "string \<Rightarrow> string \<Rightarrow> Part option list \<Rightarrow> 'w \<Rightarrow> goerr option \<times> 'w"
  AbortUpload :: "string \<Rightarrow> string \<Rightarrow> 'w \<Rightarrow> 'w"
  DstDelete :: "string \<Rightarrow> 'w \<Rightarrow> goerr option \<times> 'w"
  crc32Update :: "32 word \<Rightarrow> byte list \<Rightarrow> 32 word"
  CRC32Combine :: "32 word \<Rightarrow> 32 word \<Rightarrow> int \<Rightarrow> 32 word"

text \<open>\<open>%d\<close> of \<open>fmt.Sprintf\<close> and \<open>fmt.Errorf\<close>.\<close>

fun digits :: "nat \<Rightarrow> string" where
  "digits n = (if n < 10 then [''0123456789'' ! n]
               else digits (n div 10) @ [''0123456789'' ! (n mod 10)])"

definition itoa :: "int \<Rightarrow> string" where
  "itoa i = (if i < 0 then ''-'' @ digits (nat (- i)) else digits (nat i))"

text \<open>\<open>strings.SplitN(s, "/", n)\<close> for \<open>n > 0\<close>.\<close>

fun splitN :: "nat \<Rightarrow> string \<Rightarrow> string list" where
  "splitN 0 s = []"
| "splitN (Suc 0) s = [s]"
| "splitN (Suc n) s =
     (if CHR ''/'' \<in> set s
      then takeWhile (\<lambda>c. c \<noteq> CHR ''/'') s # splitN n (tl (dropWhile (\<lambda>c. c \<noteq> CHR ''/'') s))
      else [s])"

text \<open>\<open>dst.Put(key, r)\<close> on a \<open>chksumReader\<close> \<open>r\<close>, whose state is the running checksum and
  the wrapped reader: every \<open>Read\<close> of the store goes through \<open>chksumReader.Read\<close>.\<close>

primrec runPut :: "(32 word \<Rightarrow> byte list \<Rightarrow> 32 word) \<Rightarrow> bool \<Rightarrow> 'w putter \<Rightarrow> 32 word \<times> reader
    \<Rightarrow> (goerr option \<times> 'w) \<times> 32 word \<times> reader" where
  "runPut crc cal (Return err w) = (\<lambda>st. ((err, w), st))"
| "runPut crc cal (ReadInto n k) =
     (\<lambda>st. case chksumRead crc cal st n of (res, st') \<Rightarrow> runPut crc cal (k res) st')"

text \<open>\<open>doCopySingle0\<close> (lines 543-581). The semaphore \<open>concurrent\<close>, the rate limiter and the
  progress counters are not modelled.\<close>

definition doCopySingle0 :: "'w stores \<Rightarrow> string \<Rightarrow> int \<Rightarrow> bool \<Rightarrow> 'w \<Rightarrow> (32 word \<times> goerr option) \<times> 'w" where
  "doCopySingle0 ops key sz calChksum w =
     (let put = (\<lambda>in' w1.
            case runPut (crc32Update ops) calChksum (DstPut ops key w1) (0, in') of
              ((err, w2), (chksum, r')) \<Rightarrow> ((chksum, err), w2))
      in
      if sz = 0 then
        (if key = [] \<and> \<not> DstIsFileSystem ops \<and>
            (let ps = splitN 4 (DstString ops) in length ps = 4 \<and> ps ! 3 = [])
         then ((0, None), w)
         else if SrcIsFileSystem ops then
           (case SrcGet ops key 0 (- 1) w of
              (Inl err, w1) \<Rightarrow> ((0, Some err), w1)
            | (Inr r, w1) \<Rightarrow> put (Reader [] None) w1)
         else put (Reader [] None) w)
      else
        (case SrcGet ops key 0 sz w of
           (Inl err, w1) \<Rightarrow>
             (case SrcHead ops key w1 of
                (e, w2) \<Rightarrow> ((0, Some (if osIsNotExist e then ErrSkipped else err)), w2))
         | (Inr in', w1) \<Rightarrow> put in' w1))"

text \<open>\<open>io.CopyBuffer\<close> of the downloader into the temporary file (line 523): the error, and
  the bytes that reached the file.\<close>

definition copyBuffer :: "goerr option \<Rightarrow> reader \<Rightarrow> goerr option \<times> byte list" where
  "copyBuffer tempWrite r =
     (case chunks r of
        [] \<Rightarrow> ((case failure r of None \<Rightarrow> None | Some e \<Rightarrow> if e = EOF then None else Some e), [])
      | c # cs \<Rightarrow>
          (case tempWrite of
             Some e \<Rightarrow> (Some e, [])
           | None \<Rightarrow>
               ((case failure r of None \<Rightarrow> None | Some e \<Rightarrow> if e = EOF then None else Some e),
                pending r)))"

text \<open>\<open>doCopySingle\<close> (lines 503-541).\<close>

definition doCopySingle :: "'w stores \<Rightarrow> string \<Rightarrow> int \<Rightarrow> bool \<Rightarrow> 'w \<Rightarrow> (32 word \<times> goerr option) \<times> 'w" where
  "doCopySingle ops key sz calChksum w =
     (if sz > maxBlock \<and> \<not> DstReadInMem ops \<and> \<not> SrcFastStreamRead ops then
        (case Downloader ops key sz w of
           (downer, w0) \<Rightarrow>
             if \<not> DstStreamWrite ops \<and> TempCreate ops \<noteq> None then doCopySingle0 ops key sz calChksum w0
             else
               (let (err, in') =
                      (if DstStreamWrite ops then (None, Some downer)
                       else
                         (case copyBuffer (TempWrite ops) downer of
                            (Some e, content) \<Rightarrow> (Some e, None)
                          | (None, content) \<Rightarrow> (TempSeek ops, Some (Reader [content] None))))
                in
                case (if err = None
                      then (case runPut (crc32Update ops) calChksum (DstPut ops key w0) (0, the in') of
                              ((e, w1), (chksum, r')) \<Rightarrow> (chksum, e, w1))
                      else (0, err, w0)) of
                  (chksum, err, w1) \<Rightarrow>
                    if err \<noteq> None then
                      (case SrcHead ops key w1 of
                         (e, w2) \<Rightarrow> ((chksum, if osIsNotExist e then Some ErrSkipped else err), w2))
                    else ((chksum, err), w1)))
      else doCopySingle0 ops key sz calChksum w)"

text \<open>\<open>dynAlloc\<close> (lines 596-603) has pools for buffers of up to \<open>2 ^ 32\<close> bytes; a size
  beyond them, or below zero, makes it panic.\<close>

definition dynAlloc :: "int \<Rightarrow> panic + nat" where
  "dynAlloc sz = (if sz < 0 \<or> 2 ^ 32 < sz then Inl IndexOutOfRange else Inr (nat sz))"

text \<open>\<open>doUploadPart\<close> (lines 625-657). \<open>uploadAttempt\<close> is the closure given to \<open>try\<close>; it
  assigns \<open>part\<close> and \<open>chksum\<close>.\<close>

definition uploadAttempt :: "'w stores \<Rightarrow> string \<Rightarrow> int \<Rightarrow> int \<Rightarrow> string \<Rightarrow> string \<Rightarrow> int \<Rightarrow> bool
    \<Rightarrow> (Part option \<times> 32 word) \<times> 'w \<Rightarrow> goerr option \<times> (Part option \<times> 32 word) \<times> 'w" where
  "uploadAttempt ops srckey off sz key uploadID num calChksum =
     (\<lambda>((part, chksum), w).
        case SrcGet ops srckey off sz w of
          (Inl err, w1) \<Rightarrow> (Some err, ((part, chksum), w1))
        | (Inr in', w1) \<Rightarrow>
            (case readFullChk (crc32Update ops) calChksum (0, in') (nat sz) of
               (Inl err, st) \<Rightarrow> (Some err, ((part, chksum), w1))
             | (Inr data, (chk, r')) \<Rightarrow>
                 (case UploadPart ops key uploadID (num + 1) data w1 of
                    ((p, err), w2) \<Rightarrow> (err, ((p, chk), w2)))))"

definition doUploadPart :: "'w stores \<Rightarrow> string \<Rightarrow> int \<Rightarrow> int \<Rightarrow> string \<Rightarrow> string \<Rightarrow> int \<Rightarrow> bool \<Rightarrow> 'w
    \<Rightarrow> panic + ((Part option \<times> 32 word \<times> goerr option) \<times> 'w)" where
  "doUploadPart ops srckey off sz key uploadID num calChksum w =
     (case dynAlloc sz of
        Inl p \<Rightarrow> Inl p
      | Inr len \<Rightarrow>
          (case tryN 3 (uploadAttempt ops srckey off sz key uploadID num calChksum) ((None, 0), w) of
             (Some err, (st, w'), slept) \<Rightarrow>
               Inr ((None, 0, Some (errorf (''part '' @ itoa num @ '': '' @ msg err))), w')
           | (None, ((part, chksum), w'), slept) \<Rightarrow> Inr ((part, chksum, None), w')))"

text \<open>\<open>doCopyRange\<close> (lines 671-743). \<open>abort\<close> says at which of its \<open>select\<close>s the call finds
  the \<open>abort\<close> channel closed: \<open>abort 0\<close> is the one at the entry, \<open>abort (i + 1)\<close> the one
  before part \<open>i\<close> of the intermediate upload. \<open>rangeLoop\<close> is the loop of lines 704-729
  from index \<open>i\<close> on; it returns the error the function returns from inside the loop, if
  any.\<close>

function rangeLoop :: "'w stores \<Rightarrow> string \<Rightarrow> int \<Rightarrow> int \<Rightarrow> string \<Rightarrow> MultipartUpload \<Rightarrow> int \<Rightarrow> int
    \<Rightarrow> (nat \<Rightarrow> bool) \<Rightarrow> bool \<Rightarrow> nat \<Rightarrow> Part option list \<Rightarrow> 32 word \<Rightarrow> bool \<Rightarrow> 'w
    \<Rightarrow> panic + (goerr option \<times> Part option list \<times> 32 word \<times> 'w)" where
  "rangeLoop ops key off sz tmpkey up partSize n abort calChksum i parts tmpChksum first w =
     (if int i < n then
        (let sz' = (if int i = n - 1 then wrap64 (sz - wrap64 (int i * partSize)) else partSize) in
         if abort (i + 1) then
           Inr (Some (errorf ''aborted''), parts, tmpChksum, AbortUpload ops tmpkey (UploadID up) w)
         else
           (case doUploadPart ops key (wrap64 (off + wrap64 (int i * partSize))) sz' tmpkey
                   (UploadID up) (int i) calChksum w of
              Inl p \<Rightarrow> Inl p
            | Inr ((part, chksum, err), w1) \<Rightarrow>
                (case err of
                   Some e \<Rightarrow>
                     Inr (Some (errorf (''range('' @ itoa off @ '','' @ itoa sz @ ''): '' @ msg e)),
                          parts[i := part], tmpChksum, AbortUpload ops tmpkey (UploadID up) w1)
                 | None \<Rightarrow>
                     rangeLoop ops key off sz tmpkey up partSize n abort calChksum (i + 1)
                       (parts[i := part])
                       (if calChksum
                        then (if first then chksum else CRC32Combine ops tmpChksum chksum sz')
                        else tmpChksum)
                       (if calChksum then False else first) w1)))
      else Inr (None, parts, tmpChksum, w))"
  by pat_completeness auto
termination
  by (relation "measure (\<lambda>(ops, key, off, sz, tmpkey, up, partSize, n, abort, calChksum, i, rest).
        nat (n - int i))") auto

definition doCopyRange :: "'w stores \<Rightarrow> string \<Rightarrow> int \<Rightarrow> int \<Rightarrow> MultipartUpload \<Rightarrow> int \<Rightarrow> (nat \<Rightarrow> bool)
    \<Rightarrow> bool \<Rightarrow> 'w \<Rightarrow> panic + ((Part option \<times> 32 word \<times> goerr option) \<times> 'w)" where
  "doCopyRange ops key off sz upload num abort calChksum w =
     (if abort 0 then Inr ((None, 0, Some (errorf ''aborted'')), w)
      else if sz \<le> 32 * 2 ^ 20 \<or> \<not> IsSupportUploadPartCopy (DstLimits ops) then
        doUploadPart ops key off sz key (UploadID upload) num calChksum w
      else
        (let tmpkey = key @ ''.part'' @ itoa num in
         case tryN 3 (\<lambda>(up, w). case CreateMultipartUpload ops tmpkey w of
                                   (Inl e, w') \<Rightarrow> (Some e, (None, w'))
                                 | (Inr u, w') \<Rightarrow> (None, (Some u, w'))) (None, w) of
           (Some err, (up, w1), slept) \<Rightarrow>
             Inr ((None, 0, Some (errorf (''range('' @ itoa off @ '','' @ itoa sz @ ''): '' @ msg err))), w1)
         | (None, (None, w1), slept) \<Rightarrow> Inl NilDereference
         | (None, (Some up, w1), slept) \<Rightarrow>
             (case choosePartSize up sz of
                Inl p \<Rightarrow> Inl p
              | Inr partSize \<Rightarrow>
                  (case numParts sz partSize of
                     Inl p \<Rightarrow> Inl p
                   | Inr n \<Rightarrow>
                       if n < 0 then Inl LenOutOfRange
                       else
                         (case rangeLoop ops key off sz tmpkey up partSize n abort calChksum 0
                                 (replicate (nat n) None) 0 True w1 of
                            Inl p \<Rightarrow> Inl p
                          | Inr (Some err, parts, tmpChksum, w2) \<Rightarrow> Inr ((None, 0, Some err), w2)
                          | Inr (None, parts, tmpChksum, w2) \<Rightarrow>
                              (case tryN 3 (CompleteUpload ops tmpkey (UploadID up) parts) w2 of
                                 (Some err, w3, slept) \<Rightarrow>
                                   Inr ((None, 0, Some (errorf (''multipart: '' @ msg err))),
                                        AbortUpload ops tmpkey (UploadID up) w3)
                               | (None, w3, slept) \<Rightarrow>
                                   (case tryN 3 (\<lambda>(part, w).
                                            case UploadPartCopy ops key (UploadID upload) (num + 1)
                                                   tmpkey 0 sz w of
                                              ((p, err), w') \<Rightarrow> (err, (p, w')))
                                          (None, w3) of
                                      (err, (part, w4), slept) \<Rightarrow>
                                        Inr ((part, tmpChksum, err),
                                             snd (DstDelete ops tmpkey w4)))))))))"

text \<open>\<open>doCopyMultiple\<close> (lines 745-796). The goroutines of the parts are run one after the
  other, in the order \<open>schedule n\<close> for \<open>n\<close> parts (a permutation of the part numbers), which
  is also the order in which their errors arrive; a part that runs after one that failed
  finds \<open>abort\<close> closed. \<open>copyParts\<close> is the run of the goroutines: the parts, the checksums with their
  sizes, and the errors sent.\<close>

fun copyParts :: "'w stores \<Rightarrow> string \<Rightarrow> int \<Rightarrow> MultipartUpload \<Rightarrow> bool \<Rightarrow> int \<Rightarrow> int \<Rightarrow> nat list
    \<Rightarrow> bool \<Rightarrow> Part option list \<Rightarrow> (32 word \<times> int) list \<Rightarrow> goerr option list \<Rightarrow> 'w
    \<Rightarrow> panic + (Part option list \<times> (32 word \<times> int) list \<times> goerr option list \<times> 'w)" where
  "copyParts ops key sz upload calChksum partSize n [] aborted parts chksums errs w =
     Inr (parts, chksums, errs, w)"
| "copyParts ops key sz upload calChksum partSize n (num # rest) aborted parts chksums errs w =
     (let sz' = (if int num = n - 1 then wrap64 (sz - wrap64 (int num * partSize)) else partSize) in
      case doCopyRange ops key (wrap64 (int num * partSize)) sz' upload (int num) (\<lambda>i. aborted)
             calChksum w of
        Inl p \<Rightarrow> Inl p
      | Inr ((part, chksum, copyErr), w') \<Rightarrow>
          copyParts ops key sz upload calChksum partSize n rest (aborted \<or> copyErr \<noteq> None)
            (parts[num := part]) (chksums[num := (chksum, sz')]) (errs @ [copyErr]) w')"

definition doCopyMultiple :: "'w stores \<Rightarrow> (nat \<Rightarrow> nat list) \<Rightarrow> string \<Rightarrow> int \<Rightarrow> MultipartUpload \<Rightarrow> bool \<Rightarrow> 'w
    \<Rightarrow> panic + ((32 word \<times> goerr option) \<times> 'w)" where
  "doCopyMultiple ops schedule key sz upload calChksum w =
     (if sz > wrap64 (MaxPartSize (DstLimits ops) * MaxCount upload) then
        Inr ((0, Some (errorf (''object size '' @ itoa sz @ '' is too large to copy''))), w)
      else
        (case choosePartSize upload sz of
           Inl p \<Rightarrow> Inl p
         | Inr partSize \<Rightarrow>
             (case numParts sz partSize of
                Inl p \<Rightarrow> Inl p
              | Inr n \<Rightarrow>
                  if n < 0 then Inl LenOutOfRange
                  else
                    (case copyParts ops key sz upload calChksum partSize n (schedule (nat n)) False
                            (replicate (nat n) None) (replicate (nat n) (0, 0)) [] w of
                       Inl p \<Rightarrow> Inl p
                     | Inr (parts, chksums, errs, w1) \<Rightarrow>
                         (case (case firstError errs of
                                  None \<Rightarrow> (case tryN 3 (CompleteUpload ops key (UploadID upload) parts) w1 of
                                             (err, w2, slept) \<Rightarrow> (err, w2))
                                | Some e \<Rightarrow> (Some e, w1)) of
                            (Some err, w2) \<Rightarrow>
                              Inr ((0, Some (errorf (''multipart: '' @ msg err))),
                                   AbortUpload ops key (UploadID upload) w2)
                          | (None, w2) \<Rightarrow>
                              if calChksum then
                                (if n = 0 then Inl IndexOutOfRange
                                 else Inr ((foldl (\<lambda>chksum i. CRC32Combine ops chksum (fst (chksums ! i))
                                                                 (snd (chksums ! i)))
                                              (fst (chksums ! 0)) [1 ..< nat n], None), w2))
                              else Inr ((0, None), w2))))))"


text \<open>The calls made on the stores, each with what it returned, for stating which are made,
  in which order and on what: \<open>traced ops\<close> is \<open>ops\<close> on a state that also lists them.\<close>

datatype call =
  CGet string int int "goerr + reader"
| CHead string "goerr option"
| CDownload string int reader
| CPut string
| CCreate string "goerr + MultipartUpload"
| CUploadPart string string int "byte list" "Part option \<times> goerr option"
| CUploadPartCopy string string int string int int "Part option \<times> goerr option"
| CComplete string string "Part option list" "goerr option"
| CAbort string string
| CDelete string "goerr option"

primrec tracedPut :: "call list \<Rightarrow> 'w putter \<Rightarrow> (call list \<times> 'w) putter" where
  "tracedPut tr (Return err w) = Return err (tr, w)"
| "tracedPut tr (ReadInto n k) = ReadInto n (\<lambda>res. tracedPut tr (k res))"

definition record_call :: "('r \<Rightarrow> call) \<Rightarrow> ('w \<Rightarrow> 'r \<times> 'w) \<Rightarrow> call list \<times> 'w \<Rightarrow> 'r \<times> call list \<times> 'w" where
  "record_call c f = (\<lambda>(tr, w). case f w of (r, w') \<Rightarrow> (r, (tr @ [c r], w')))"

definition traced :: "'w stores \<Rightarrow> (call list \<times> 'w) stores" where
  "traced ops =
     \<lparr> SrcGet = (\<lambda>key off len. record_call (CGet key off len) (SrcGet ops key off len)),
       SrcHead = (\<lambda>key. record_call (CHead key) (SrcHead ops key)),
       SrcIsFileSystem = SrcIsFileSystem ops,
       SrcFastStreamRead = SrcFastStreamRead ops,
       Downloader = (\<lambda>key sz. record_call (CDownload key sz) (Downloader ops key sz)),
       TempCreate = TempCreate ops,
       TempWrite = TempWrite ops,
       TempSeek = TempSeek ops,
       DstPut = (\<lambda>key (tr, w). tracedPut (tr @ [CPut key]) (DstPut ops key w)),
       DstLimits = DstLimits ops,
       DstString = DstString ops,
       DstIsFileSystem = DstIsFileSystem ops,
       DstReadInMem = DstReadInMem ops,
       DstStreamWrite = DstStreamWrite ops,
       CreateMultipartUpload = (\<lambda>key. record_call (CCreate key) (CreateMultipartUpload ops key)),
       UploadPart = (\<lambda>key uploadID num data.
         record_call (CUploadPart key uploadID num data) (UploadPart ops key uploadID num data)),
       UploadPartCopy = (\<lambda>key uploadID num srckey off sz.
         record_call (CUploadPartCopy key uploadID num srckey off sz)
           (UploadPartCopy ops key uploadID num srckey off sz)),
       CompleteUpload = (\<lambda>key uploadID parts.
         record_call (CComplete key uploadID parts) (CompleteUpload ops key uploadID parts)),
       AbortUpload = (\<lambda>key uploadID (tr, w). (tr @ [CAbort key uploadID], AbortUpload ops key uploadID w)),
       DstDelete = (\<lambda>key. record_call (CDelete key) (DstDelete ops key)),
       crc32Update = crc32Update ops,
       CRC32Combine = CRC32Combine ops \<rparr>"

text \<open>The two calls that transfer part \<open>j\<close> of a range of \<open>sz\<close> bytes at \<open>off\<close>, cut in parts
  of \<open>ps\<close> bytes, to the upload \<open>uploadID\<close> of \<open>key'\<close>: the \<open>Get\<close> of the range of the part,
  which returned the reader \<open>r\<close>, and the \<open>UploadPart\<close> of the bytes read from \<open>r\<close>, which
  returned the part \<open>p\<close>.\<close>

definition partCalls :: "string \<Rightarrow> int \<Rightarrow> int \<Rightarrow> string \<Rightarrow> string \<Rightarrow> int \<Rightarrow> nat \<Rightarrow> reader \<Rightarrow> Part option
    \<Rightarrow> call list" where
  "partCalls key off sz key' uploadID ps j r p =
     [CGet key (off + int j * ps) (min ps (sz - int j * ps)) (Inr r),
      CUploadPart key' uploadID (int j + 1) (take (nat (min ps (sz - int j * ps))) (pending r)) (p, None)]"

text \<open>A store without failures: \<open>Get\<close> delivers a reader with the bytes asked for, every
  operation of the destination succeeds, and the uploads it creates have a positive
  \<open>MaxCount\<close> and a \<open>MinPartSize\<close> of at most 4 GiB.\<close>

definition reliable :: "'w stores \<Rightarrow> bool" where
  "reliable ops \<longleftrightarrow>
     (\<forall>key off len w. \<exists>r w'. SrcGet ops key off len w = (Inr r, w') \<and> nat len \<le> length (pending r)) \<and>
     (\<forall>key w. \<exists>up w'. CreateMultipartUpload ops key w = (Inr up, w') \<and> 1 \<le> MaxCount up \<and>
        0 \<le> MinPartSize up \<and> MinPartSize up \<le> 2 ^ 32 \<and> minPart up * MaxCount up < 2 ^ 63) \<and>
     (\<forall>key uploadID num data w. snd (fst (UploadPart ops key uploadID num data w)) = None) \<and>
     (\<forall>key uploadID num srckey off sz w.
        snd (fst (UploadPartCopy ops key uploadID num srckey off sz w)) = None) \<and>
     (\<forall>key uploadID parts w. fst (CompleteUpload ops key uploadID parts w) = None)"

text \<open>An example of such a store: the byte at offset \<open>i\<close> of every object is \<open>i mod 256\<close>, and
  nothing is kept.\<close>

definition sampleStore :: "bool \<Rightarrow> unit stores" where
  "sampleStore copySupported =
     \<lparr> SrcGet = (\<lambda>key off len w.
         (Inr (Reader [map (\<lambda>i. of_nat (nat off + i)) [0 ..< nat len]] None), w)),
       SrcHead = (\<lambda>key w. (None, w)),
       SrcIsFileSystem = False,
       SrcFastStreamRead = False,
       Downloader = (\<lambda>key sz w. (Reader [map of_nat [0 ..< nat sz]] None, w)),
       TempCreate = None,
       TempWrite = None,
       TempSeek = None,
       DstPut = (\<lambda>key w. Return None w),
       DstLimits = \<lparr> IsSupportMultipartUpload = True, IsSupportUploadPartCopy = copySupported,
                     LimMinPartSize = 5 * 2 ^ 20, MaxPartSize = 5 * 2 ^ 30, LimMaxCount = 10000 \<rparr>,
       DstString = ''s3://bucket/'',
       DstIsFileSystem = False,
       DstReadInMem = False,
       DstStreamWrite = False,
       CreateMultipartUpload = (\<lambda>key w.
         (Inr \<lparr> MinPartSize = 5 * 2 ^ 20, MaxCount = 10000, UploadID = ''id-'' @ key \<rparr>, w)),
       UploadPart = (\<lambda>key uploadID num data w.
         ((Some \<lparr> PartNum = num, PartLen = int (length data), ETag = [] \<rparr>, None), w)),
       UploadPartCopy = (\<lambda>key uploadID num srckey off sz w.
         ((Some \<lparr> PartNum = num, PartLen = sz, ETag = [] \<rparr>, None), w)),
       CompleteUpload = (\<lambda>key uploadID parts w. (None, w)),
       AbortUpload = (\<lambda>key uploadID w. w),
       DstDelete = (\<lambda>key w. (None, w)),
       crc32Update = (\<lambda>c p. c),
       CRC32Combine = (\<lambda>c1 c2 len. c1) \<rparr>"

text \<open>What the checksum of a copy is compared with. \<open>slice content off len\<close> is the range
  of \<open>len\<close> bytes at \<open>off\<close>. A reader delivers \<open>bs\<close> when the bytes it yields are the leading
  bytes of \<open>bs\<close>, and all of them if it ends with \<open>io.EOF\<close>. The source serves the object
  \<open>key\<close> of bytes \<open>content\<close> when the readers of \<open>Get\<close> and of the parallel downloader deliver
  the range asked for.\<close>

definition slice :: "byte list \<Rightarrow> int \<Rightarrow> int \<Rightarrow> byte list" where
  "slice content off len = take (nat len) (drop (nat off) content)"















section \<open>Properties\<close>

subsection \<open>Integer helpers\<close>

lemma wrap64_id: "- (2 ^ 63) \<le> x \<Longrightarrow> x < 2 ^ 63 \<Longrightarrow> wrap64 x = x"
  unfolding wrap64_def by (simp add: mod_pos_pos_trivial)

lemma quo_nonneg: "0 \<le> a \<Longrightarrow> 0 < b \<Longrightarrow> quo a b = a div b"
  unfolding quo_def by (cases "a = 0") (simp_all add: sgn_if)

lemma ceilDiv_mono: "0 < b \<Longrightarrow> x \<le> y \<Longrightarrow> ceilDiv x b \<le> ceilDiv y b"
  unfolding ceilDiv_def by (simp add: zdiv_mono1)

lemma roundMiB_mono: "x \<le> y \<Longrightarrow> roundMiB x \<le> roundMiB y"
  unfolding roundMiB_def using ceilDiv_mono [of "2 ^ 20" x y] by simp

lemma ceilDiv_mult_bounds:
  assumes "0 < (m::int)"
  shows "x \<le> ceilDiv x m * m" and "ceilDiv x m * m < x + m"
proof -
  have e: "ceilDiv x m * m = (x + m - 1) - (x + m - 1) mod m"
    unfolding ceilDiv_def by (simp add: minus_mod_eq_div_mult)
  have "0 \<le> (x + m - 1) mod m" "(x + m - 1) mod m < m" using assms by simp_all
  then show "x \<le> ceilDiv x m * m" and "ceilDiv x m * m < x + m" unfolding e by linarith+
qed

lemma roundMiB_ge: "x \<le> roundMiB x"
  unfolding roundMiB_def by (rule ceilDiv_mult_bounds) simp

lemma roundMiB_lt: "roundMiB x < x + 2 ^ 20"
  unfolding roundMiB_def by (rule ceilDiv_mult_bounds) simp

lemma roundMiB_dvd: "2 ^ 20 dvd roundMiB x"
  unfolding roundMiB_def by simp

lemma floor_le_ceilDiv: "0 < b \<Longrightarrow> a div b \<le> ceilDiv a b"
  unfolding ceilDiv_def by (simp add: zdiv_mono1)

lemma round_code: "shr64 (q - 1) 20 + 1 = ceilDiv q (2 ^ 20)"
proof -
  have "(q + 2 ^ 20 - 1) div 2 ^ 20 = ((q - 1) + 2 ^ 20) div (2 ^ 20 :: int)" by (simp add: algebra_simps)
  also have "\<dots> = (q - 1) div 2 ^ 20 + 1" by (subst div_add_self2) simp_all
  finally show ?thesis unfolding shr64_def ceilDiv_def by simp
qed

lemma int_div_mult_le: "0 < (b::int) \<Longrightarrow> a div b * b \<le> a"
  using pos_mod_sign [of b a] by (simp add: minus_mod_eq_div_mult [symmetric])

lemma int_le_div: "0 < (b::int) \<Longrightarrow> p * b \<le> a \<Longrightarrow> p \<le> a div b"
  using zdiv_mono1 [of "p * b" a b] by simp

lemma int_div_less: "0 < (b::int) \<Longrightarrow> a < m * b \<Longrightarrow> a div b < m"
proof (rule ccontr)
  assume b: "0 < b" and a: "a < m * b" and n: "\<not> a div b < m"
  then have "m * b \<le> a div b * b" by (intro mult_right_mono) auto
  also have "\<dots> \<le> a" using b by (rule int_div_mult_le)
  finally show False using a by simp
qed

lemma choosePartSize_large:
  assumes sz: "1 \<le> sz" "sz \<le> 2 ^ 62" and mc: "1 \<le> MaxCount u"
    and fit: "minPart u * MaxCount u < 2 ^ 63" "0 \<le> MinPartSize u"
    and big: "minPart u * MaxCount u < sz"
  shows "choosePartSize u sz = Inr (roundMiB (sz div MaxCount u))"
proof -
  let ?q = "sz div MaxCount u"
  have p0: "0 < minPart u" using fit(2) by (simp add: minPart_def defaultPartSize_def)
  have q0: "0 \<le> ?q" using sz mc by (simp add: pos_imp_zdiv_nonneg_iff)
  have "?q * 1 \<le> ?q * MaxCount u" using q0 mc by (intro mult_left_mono) auto
  also have "\<dots> = sz - sz mod MaxCount u" by (simp add: minus_mod_eq_div_mult)
  also have "\<dots> \<le> sz" using mc by simp
  finally have qle: "?q \<le> sz" by simp
  have w1: "wrap64 (minPart u * MaxCount u) = minPart u * MaxCount u"
    using fit p0 mc by (intro wrap64_id) (auto intro: order_trans [of _ 0] mult_nonneg_nonneg)
  have w2: "wrap64 (quo sz (MaxCount u)) = ?q"
    using sz mc q0 qle by (simp add: quo_nonneg wrap64_id)
  have w3: "wrap64 (?q - 1) = ?q - 1" using q0 qle sz by (intro wrap64_id) auto
  have c0: "0 \<le> ceilDiv ?q (2 ^ 20)" using q0 unfolding ceilDiv_def by (simp add: pos_imp_zdiv_nonneg_iff)
  have "ceilDiv ?q (2 ^ 20) * 1 \<le> ceilDiv ?q (2 ^ 20) * 2 ^ 20" using c0 by (intro mult_left_mono) auto
  then have cle: "ceilDiv ?q (2 ^ 20) \<le> ?q + 2 ^ 20" using ceilDiv_mult_bounds(2) [of "2 ^ 20" ?q] by simp
  have w4: "wrap64 (ceilDiv ?q (2 ^ 20)) = ceilDiv ?q (2 ^ 20)"
    using c0 cle qle sz by (intro wrap64_id) auto
  have r0: "0 \<le> roundMiB ?q" using roundMiB_ge [of ?q] q0 by simp
  have w5: "wrap64 (ceilDiv ?q (2 ^ 20) * 2 ^ 20) = roundMiB ?q"
    unfolding roundMiB_def [symmetric]
    using r0 roundMiB_lt [of ?q] qle sz by (intro wrap64_id) auto
  have "choosePartSize u sz =
      Inr (shl64 (wrap64 (shr64 (wrap64 (wrap64 (quo sz (MaxCount u)) - 1)) 20 + 1)) 20)"
    using big mc w1 by (simp add: choosePartSize_def minPart_def Let_def)
  then show ?thesis
    unfolding w2 w3 round_code w4 shl64_def w5 .
qed

lemma choosePartSize_small:
  assumes mc: "1 \<le> MaxCount u"
    and fit: "minPart u * MaxCount u < 2 ^ 63" "0 \<le> MinPartSize u"
    and small: "sz \<le> minPart u * MaxCount u"
  shows "choosePartSize u sz = Inr (minPart u)"
proof -
  have p0: "0 < minPart u" using fit(2) by (simp add: minPart_def defaultPartSize_def)
  have w1: "wrap64 (minPart u * MaxCount u) = minPart u * MaxCount u"
    using fit p0 mc by (intro wrap64_id) (auto intro: order_trans [of _ 0] mult_nonneg_nonneg)
  show ?thesis using small w1 by (simp add: choosePartSize_def minPart_def Let_def)
qed

lemma numParts_fits:
  assumes sz: "1 \<le> sz" "sz \<le> 2 ^ 62" and ps: "0 < ps" and fits: "sz \<le> ps * m"
  shows "\<exists>n. numParts sz ps = Inr n \<and> 1 \<le> n \<and> n \<le> m"
proof -
  let ?d = "(sz - 1) div ps"
  have d0: "0 \<le> ?d" using sz ps by (simp add: pos_imp_zdiv_nonneg_iff)
  have "?d * 1 \<le> ?d * ps" using d0 ps by (intro mult_left_mono) auto
  also have "\<dots> = (sz - 1) - (sz - 1) mod ps" by (simp add: minus_mod_eq_div_mult)
  also have "\<dots> \<le> sz - 1" using pos_mod_sign [OF ps, of "sz - 1"] by linarith
  finally have dle: "?d \<le> sz - 1" by simp
  have "sz - 1 < ps * m" using fits by simp
  then have "?d < m" using ps by (intro int_div_less) (simp_all add: mult.commute)
  moreover have "wrap64 (sz - 1) = sz - 1" using sz by (intro wrap64_id) auto
  moreover have "wrap64 ?d = ?d" using d0 dle sz by (intro wrap64_id) auto
  moreover have "wrap64 (?d + 1) = ?d + 1" using d0 dle sz by (intro wrap64_id) auto
  ultimately show ?thesis using ps sz d0 by (simp add: numParts_def quo_nonneg)
qed

subsection \<open>C6: the multipart part size\<close>

lemma ceilDiv_le:
  assumes m: "0 < (m::int)" and le: "x \<le> p * m"
  shows "ceilDiv x m \<le> p"
proof -
  have "x + m - 1 < (p + 1) * m" using le m by (simp add: algebra_simps)
  then have "(x + m - 1) div m < p + 1" using m by (intro int_div_less)
  then show ?thesis by (simp add: ceilDiv_def)
qed

lemma roundMiB_aligned: "2 ^ 20 dvd x \<Longrightarrow> roundMiB x = x"
proof -
  assume "2 ^ 20 dvd x"
  then obtain k where x: "x = 2 ^ 20 * k" by (auto simp: dvd_def)
  have "(2 ^ 20 * k + 2 ^ 20 - 1) div 2 ^ 20 = (k::int)" by simp
  then show ?thesis by (simp add: roundMiB_def ceilDiv_def x)
qed

lemma ceilDiv_exact: "0 < (m::int) \<Longrightarrow> m dvd x \<Longrightarrow> ceilDiv x m = x div m"
proof -
  assume m: "0 < m" and "m dvd x"
  then obtain k where x: "x = m * k" by (auto simp: dvd_def)
  have "(m * k + (m - 1)) div m = k + (m - 1) div m" using m by (subst div_mult_self4) simp_all
  moreover have "(m - 1) div m = 0" using m by (simp add: div_pos_pos_trivial)
  ultimately have "(m * k + (m - 1)) div m = k" by simp
  moreover have "m * k + m - 1 = m * k + (m - 1)" by simp
  ultimately have "(m * k + m - 1) div m = k" by (simp only:)
  then show ?thesis using m by (simp add: ceilDiv_def x)
qed

lemma ceilDiv_inexact: "0 < (m::int) \<Longrightarrow> \<not> m dvd x \<Longrightarrow> ceilDiv x m = x div m + 1"
proof -
  assume m: "0 < m" and nd: "\<not> m dvd x"
  have "x mod m \<noteq> 0" using nd by (simp add: dvd_eq_mod_eq_0)
  with pos_mod_sign [OF m, of x] pos_mod_bound [OF m, of x] have r: "0 < x mod m" "x mod m < m" by linarith+
  have "x + m - 1 = m * (x div m + 1) + (x mod m - 1)" by (simp add: algebra_simps)
  then have "(x + m - 1) div m = (x div m + 1) + (x mod m - 1) div m"
    using m by (simp only: div_mult_self4) 
  also have "(x mod m - 1) div m = 0" using r by (simp add: div_pos_pos_trivial)
  finally show ?thesis by (simp add: ceilDiv_def)
qed

lemma roundMiB_succ: "\<not> 2 ^ 20 dvd q \<Longrightarrow> roundMiB (q + 1) = roundMiB q"
proof -
  assume nd: "\<not> 2 ^ 20 dvd q"
  have "ceilDiv (q + 1) (2 ^ 20) = q div 2 ^ 20 + 1"
  proof -
    have "(q + 1 + 2 ^ 20 - 1) div 2 ^ 20 = (q + 2 ^ 20) div (2 ^ 20 :: int)" by simp
    also have "\<dots> = q div 2 ^ 20 + 1" by simp
    finally show ?thesis by (simp add: ceilDiv_def)
  qed
  moreover have "ceilDiv q (2 ^ 20) = q div 2 ^ 20 + 1" using nd by (intro ceilDiv_inexact) auto
  ultimately show ?thesis by (simp add: roundMiB_def)
qed

text \<open>
  C6 (amended). Let \<open>1 \<le> sz \<le> 2 ^ 62\<close>, \<open>MaxCount \<ge> 1\<close>, \<open>MinPartSize \<ge> 0\<close> and
  \<open>P * MaxCount < 2 ^ 63\<close>, where \<open>P\<close> (\<open>minPart\<close>) is \<open>MinPartSize\<close>, or 5 MiB when it is zero.
  If \<open>sz \<le> P * MaxCount\<close>, \<open>choosePartSize\<close> returns \<open>P\<close> itself; this is the spec's
  \<open>max(MinPartSize, ceil(size/MaxCount) rounded to MiB)\<close> exactly when the rounded quotient is
  at most \<open>P\<close>, which is so whenever \<open>P\<close> is a multiple of 1 MiB. Otherwise it returns
  \<open>floor(sz / MaxCount)\<close> rounded up to MiB, which is the spec's formula unless
  \<open>floor(sz / MaxCount)\<close> is a multiple of 1 MiB and \<open>MaxCount\<close> does not divide \<open>sz\<close>. In every
  case but this last one the part size times \<open>MaxCount\<close> is at least \<open>sz\<close>, and the object
  takes between 1 and \<open>MaxCount\<close> parts.
\<close>

theorem choosePartSize_design:
  assumes "1 \<le> sz" and "sz \<le> 2 ^ 62" and "1 \<le> MaxCount u" and "0 \<le> MinPartSize u"
    and "minPart u * MaxCount u < 2 ^ 63"
  shows "\<exists>ps. choosePartSize u sz = Inr ps \<and>
           (if sz \<le> minPart u * MaxCount u
            then ps = minPart u \<and>
                 (ps = specPartSize u sz \<longleftrightarrow> roundMiB (ceilDiv sz (MaxCount u)) \<le> minPart u) \<and>
                 (2 ^ 20 dvd minPart u \<longrightarrow> ps = specPartSize u sz) \<and>
                 sz \<le> ps * MaxCount u \<and>
                 (\<exists>n. numParts sz ps = Inr n \<and> 1 \<le> n \<and> n \<le> MaxCount u)
            else ps = roundMiB (sz div MaxCount u) \<and>
                 (\<not> (2 ^ 20 dvd sz div MaxCount u \<and> \<not> MaxCount u dvd sz) \<longrightarrow>
                    ps = specPartSize u sz \<and> sz \<le> ps * MaxCount u \<and>
                    (\<exists>n. numParts sz ps = Inr n \<and> 1 \<le> n \<and> n \<le> MaxCount u)))"
proof (cases "sz \<le> minPart u * MaxCount u")
  case True
  have m: "0 < MaxCount u" using assms(3) by simp
  have p0: "0 < minPart u" using assms(4) by (simp add: minPart_def defaultPartSize_def)
  have eq: "choosePartSize u sz = Inr (minPart u)"
    using assms True by (intro choosePartSize_small)
  have np: "\<exists>n. numParts sz (minPart u) = Inr n \<and> 1 \<le> n \<and> n \<le> MaxCount u"
    using assms True p0 by (intro numParts_fits)
  have iff: "minPart u = specPartSize u sz \<longleftrightarrow> roundMiB (ceilDiv sz (MaxCount u)) \<le> minPart u"
    by (auto simp: specPartSize_def max_def)
  have al: "roundMiB (ceilDiv sz (MaxCount u)) \<le> minPart u" if d: "2 ^ 20 dvd minPart u"
  proof -
    have "ceilDiv sz (MaxCount u) \<le> minPart u" using m True by (rule ceilDiv_le)
    then have "roundMiB (ceilDiv sz (MaxCount u)) \<le> roundMiB (minPart u)" by (rule roundMiB_mono)
    with roundMiB_aligned [OF d] show ?thesis by simp
  qed
  show ?thesis using eq np iff al True by simp
next
  case False
  let ?m = "MaxCount u"
  let ?q = "sz div ?m"
  have m: "0 < ?m" using assms(3) by simp
  have eq: "choosePartSize u sz = Inr (roundMiB ?q)"
    using assms False by (intro choosePartSize_large) auto
  have "minPart u * ?m \<le> sz" using False by simp
  then have lo: "minPart u \<le> ?q" using assms(3) by (intro int_le_div) auto
  have rest: "roundMiB ?q = specPartSize u sz \<and> sz \<le> roundMiB ?q * ?m \<and>
      (\<exists>n. numParts sz (roundMiB ?q) = Inr n \<and> 1 \<le> n \<and> n \<le> ?m)"
    if ns: "\<not> (2 ^ 20 dvd ?q \<and> \<not> ?m dvd sz)"
  proof -
    have r: "roundMiB (ceilDiv sz ?m) = roundMiB ?q"
    proof (cases "?m dvd sz")
      case True
      with m show ?thesis by (simp add: ceilDiv_exact)
    next
      case nd: False
      with ns have "\<not> 2 ^ 20 dvd ?q" by simp
      then have "roundMiB (?q + 1) = roundMiB ?q" by (rule roundMiB_succ)
      with nd m show ?thesis by (simp add: ceilDiv_inexact)
    qed
    have ge: "minPart u \<le> roundMiB ?q" using lo roundMiB_ge [of ?q] by simp
    then have spec: "roundMiB ?q = specPartSize u sz" by (simp add: specPartSize_def r max_def)
    have "sz \<le> ceilDiv sz ?m * ?m" using m by (rule ceilDiv_mult_bounds)
    also have "\<dots> \<le> roundMiB (ceilDiv sz ?m) * ?m"
      using m roundMiB_ge [of "ceilDiv sz ?m"] by (intro mult_right_mono) auto
    finally have fit: "sz \<le> roundMiB ?q * ?m" by (simp add: r)
    have p0: "0 < minPart u" using assms(4) by (simp add: minPart_def defaultPartSize_def)
    have "\<exists>n. numParts sz (roundMiB ?q) = Inr n \<and> 1 \<le> n \<and> n \<le> ?m"
      using assms(1,2) fit ge p0 by (intro numParts_fits) auto
    with spec fit show ?thesis by simp
  qed
  show ?thesis
  proof (intro exI [of _ "roundMiB ?q"] conjI)
    show "choosePartSize u sz = Inr (roundMiB ?q)" by (rule eq)
    show "if sz \<le> minPart u * MaxCount u
            then roundMiB ?q = minPart u \<and>
                 (roundMiB ?q = specPartSize u sz \<longleftrightarrow> roundMiB (ceilDiv sz (MaxCount u)) \<le> minPart u) \<and>
                 (2 ^ 20 dvd minPart u \<longrightarrow> roundMiB ?q = specPartSize u sz) \<and>
                 sz \<le> roundMiB ?q * MaxCount u \<and>
                 (\<exists>n. numParts sz (roundMiB ?q) = Inr n \<and> 1 \<le> n \<and> n \<le> MaxCount u)
            else roundMiB ?q = roundMiB (sz div MaxCount u) \<and>
                 (\<not> (2 ^ 20 dvd sz div MaxCount u \<and> \<not> MaxCount u dvd sz) \<longrightarrow>
                    roundMiB ?q = specPartSize u sz \<and> sz \<le> roundMiB ?q * MaxCount u \<and>
                    (\<exists>n. numParts sz (roundMiB ?q) = Inr n \<and> 1 \<le> n \<and> n \<le> MaxCount u))"
      using False rest by (simp only: if_False) blast
  qed
qed

theorem choosePartSize_design_witness:
  "(\<exists>ps. choosePartSize \<lparr>MinPartSize = 0, MaxCount = 10000, UploadID = ''id''\<rparr> 10485760 = Inr ps \<and>
        ps = 5242880 \<and> ps = specPartSize \<lparr>MinPartSize = 0, MaxCount = 10000, UploadID = ''id''\<rparr> 10485760 \<and>
        10485760 \<le> ps * 10000 \<and> numParts 10485760 ps = Inr 2) \<and>
   (\<exists>ps. choosePartSize \<lparr>MinPartSize = 0, MaxCount = 10000, UploadID = ''id''\<rparr> 62914570000 = Inr ps \<and>
        ps = 7340032 \<and> ps = specPartSize \<lparr>MinPartSize = 0, MaxCount = 10000, UploadID = ''id''\<rparr> 62914570000 \<and>
        62914570000 \<le> ps * 10000 \<and> numParts 62914570000 ps = Inr 8572)"
  using choosePartSize_design [of 10485760 "\<lparr>MinPartSize = 0, MaxCount = 10000, UploadID = ''id''\<rparr>"]
    choosePartSize_design [of 62914570000 "\<lparr>MinPartSize = 0, MaxCount = 10000, UploadID = ''id''\<rparr>"]
  by (simp add: minPart_def defaultPartSize_def numParts_def quo_def wrap64_def roundMiB_def ceilDiv_def
      specPartSize_def)

text \<open>
  The claim as stated fails for a minimum part size that is not a multiple of 1 MiB: it is
  kept as it is when it suffices (the guard of line 664), so a 10 MiB object is copied in
  parts of 100 KiB where the spec's formula gives 1 MiB.
\<close>

theorem choosePartSize_counterexample:
  "choosePartSize \<lparr>MinPartSize = 102400, MaxCount = 10000, UploadID = ''id''\<rparr> 10485760 = Inr 102400 \<and>
   specPartSize \<lparr>MinPartSize = 102400, MaxCount = 10000, UploadID = ''id''\<rparr> 10485760 = 1048576"
  by (simp add: choosePartSize_def specPartSize_def minPart_def roundMiB_def ceilDiv_def
      wrap64_def defaultPartSize_def)

text \<open>
  The inputs the amended claim leaves out: line 665 divides with \<open>/\<close>, which rounds down,
  where the formula rounds up. When \<open>floor(sz / MaxCount)\<close> is a multiple of 1 MiB and
  \<open>MaxCount\<close> does not divide \<open>sz\<close>, the part size is \<open>floor(sz / MaxCount)\<close>, 1 MiB less than the
  formula, and the part size times \<open>MaxCount\<close> is less than \<open>sz\<close>: for \<open>MaxCount = 10000\<close> and
  \<open>sz = 10000 * 6 MiB + 1\<close> the parts are of 6 MiB and there are 10001 of them.
\<close>

lemma choosePartSize_floor_slip:
  assumes "1 \<le> sz" and "sz \<le> 2 ^ 62" and "1 \<le> MaxCount u" and "0 \<le> MinPartSize u"
    and "minPart u * MaxCount u < 2 ^ 63" and "minPart u * MaxCount u < sz"
    and "2 ^ 20 dvd sz div MaxCount u" and "\<not> MaxCount u dvd sz"
  shows "choosePartSize u sz = Inr (sz div MaxCount u) \<and> sz div MaxCount u * MaxCount u < sz \<and>
         specPartSize u sz = sz div MaxCount u + 2 ^ 20"
proof -
  let ?m = "MaxCount u"
  let ?q = "sz div ?m"
  have m: "0 < ?m" using assms(3) by simp
  have eq: "choosePartSize u sz = Inr (roundMiB ?q)"
    using assms by (intro choosePartSize_large) auto
  have "?q * ?m = sz - sz mod ?m" by (simp add: minus_mod_eq_div_mult)
  moreover have "0 \<le> sz mod ?m" "sz mod ?m \<noteq> 0" using m assms(8) by (simp_all add: dvd_eq_mod_eq_0)
  ultimately have lt: "?q * ?m < sz" by simp
  have "minPart u \<le> ?q" using assms(3,6) by (intro int_le_div) auto
  moreover have "roundMiB (?q + 1) = ?q + 2 ^ 20"
  proof -
    from assms(7) obtain k where q: "?q = 2 ^ 20 * k" by (auto simp: dvd_def)
    have "(2 ^ 20 * k + 1 + 2 ^ 20 - 1) div 2 ^ 20 = (k + 1 :: int)"
    proof -
      have "(2 ^ 20 * k + 1 + 2 ^ 20 - 1) = (2 ^ 20 :: int) * (k + 1)" by (simp add: algebra_simps)
      then show ?thesis by simp
    qed
    then show ?thesis unfolding roundMiB_def ceilDiv_def q by (simp add: algebra_simps)
  qed
  ultimately have "specPartSize u sz = ?q + 2 ^ 20"
    using m assms(8) by (simp add: specPartSize_def ceilDiv_inexact max_def)
  with eq lt roundMiB_aligned [OF assms(7)] show ?thesis by simp
qed

lemma choosePartSize_floor_slip_example:
  "choosePartSize \<lparr>MinPartSize = 5242880, MaxCount = 10000, UploadID = ''id''\<rparr> 62914560001 = Inr 6291456 \<and>
   specPartSize \<lparr>MinPartSize = 5242880, MaxCount = 10000, UploadID = ''id''\<rparr> 62914560001 = 7340032 \<and>
   6291456 * 10000 < (62914560001 :: int) \<and>
   numParts 62914560001 6291456 = Inr 10001"
  by (simp add: choosePartSize_def specPartSize_def minPart_def roundMiB_def ceilDiv_def
      numParts_def quo_def wrap64_def shl64_def shr64_def defaultPartSize_def)

subsection \<open>C3: the retry policy\<close>

declare tryLoop.simps [simp del]

lemma tryLoop_logged:
  assumes "tryLoop i n (logged f) err0 (tr0, s) sl0 = (err, (tr, s'), sl)"
  shows "\<exists>new. tr = tr0 @ new \<and> int (length new) \<le> max 0 (n - int i) \<and>
           (\<forall>e \<in> set (butlast new). shouldRetry e) \<and>
           err = (if new = [] then err0 else last new) \<and>
           (int (length new) < n - int i \<longrightarrow> new \<noteq> [] \<and> \<not> shouldRetry (last new)) \<and>
           sl = sl0 @ map (\<lambda>j. int (j * j)) [i ..< i + length (filter shouldRetry new)]"
  using assms
proof (induction i n "logged f" err0 "(tr0, s)" sl0 arbitrary: tr0 s rule: tryLoop.induct)
  case (1 i n err0 sl0)
  show ?case
  proof (cases "int i < n")
    case False
    with "1.prems" show ?thesis by (simp add: tryLoop.simps [of i n])
  next
    case True
    obtain e s1 where fs: "f s = (e, s1)" by (cases "f s")
    then have lg: "logged f (tr0, s) = (e, tr0 @ [e], s1)" by (simp add: logged_def)
    show ?thesis
    proof (cases "shouldRetry e")
      case False
      with True lg "1.prems" have "tr = tr0 @ [e]" "err = e" "sl = sl0"
        by (auto simp add: tryLoop.simps [of i n])
      with False True show ?thesis
        by (intro exI [of _ "[e]"]) simp
    next
      case sr: True
      with True lg "1.prems" have
        rec: "tryLoop (i + 1) n (logged f) e (tr0 @ [e], s1) (sl0 @ [int (i * i)]) = (err, (tr, s'), sl)"
        by (simp add: tryLoop.simps [of i n])
      from "1.hyps" [OF True lg [symmetric] _ rec] sr 
      obtain new where n: "tr = (tr0 @ [e]) @ new" "int (length new) \<le> max 0 (n - int (i + 1))"
        "\<forall>e \<in> set (butlast new). shouldRetry e"
        "err = (if new = [] then e else last new)"
        "int (length new) < n - int (i + 1) \<longrightarrow> new \<noteq> [] \<and> \<not> shouldRetry (last new)"
        "sl = (sl0 @ [int (i * i)]) @ map (\<lambda>j. int (j * j)) [i + 1 ..< i + 1 + length (filter shouldRetry new)]"
        by auto
      have up: "[i ..< i + length (filter shouldRetry (e # new))] =
            i # [i + 1 ..< i + 1 + length (filter shouldRetry new)]"
      proof -
        have "[i ..< i + Suc (length (filter shouldRetry new))] =
              i # [Suc i ..< i + Suc (length (filter shouldRetry new))]"
          by (rule upt_conv_Cons) simp
        then show ?thesis using sr by simp
      qed
      show ?thesis
        apply (rule exI [of _ "e # new"])
        using n sr True up by (auto simp: butlast_append split: if_splits)
    qed
  qed
qed

lemma tryLoop_count:
  assumes step: "\<And>s e s'. f s = (e, s') \<Longrightarrow> cnt s' = Suc (cnt s)"
    and run: "tryLoop i n f err0 s sl0 = (err, s', sl)"
  shows "cnt s \<le> cnt s' \<and> int (cnt s') - int (cnt s) \<le> max 0 (n - int i)"
  using step run
proof (induction i n f err0 s sl0 rule: tryLoop.induct)
  case (1 i n f err0 s sl0)
  note step1 = "1.prems"(1) and run1 = "1.prems"(2)
  show ?case
  proof (cases "int i < n")
    case False
    with run1 show ?thesis by (simp add: tryLoop.simps [of i n])
  next
    case True
    obtain e s1 where fs: "f s = (e, s1)" by (cases "f s")
    show ?thesis
    proof (cases "shouldRetry e")
      case False
      with True fs run1 have "s' = s1"
        by (auto simp add: tryLoop.simps [of i n])
      with True step1 [OF fs] show ?thesis by simp
    next
      case sr: True
      with True fs run1 have
        rec: "tryLoop (i + 1) n f e s1 (sl0 @ [int (i * i)]) = (err, s', sl)"
        by (simp add: tryLoop.simps [of i n])
      have "cnt s1 \<le> cnt s' \<and> int (cnt s') - int (cnt s1) \<le> max 0 (n - int (i + 1))"
      proof (rule "1.IH" [OF True fs [symmetric]])
        show "\<not> \<not> shouldRetry e" using sr by simp
        show "\<And>s e s'. f s = (e, s') \<Longrightarrow> cnt s' = Suc (cnt s)" by (rule step1)
        show "tryLoop (i + 1) n f e s1 (sl0 @ [int (i * i)]) = (err, s', sl)" by (rule rec)
      qed
      with step1 [OF fs] True show ?thesis by auto
    qed
  qed
qed

lemma tryLoop_unlogged:
  "tryLoop i n (unlogged f) err0 (l, s) sl0 =
     (case tryLoop i n f err0 s sl0 of (err, s', sl) \<Rightarrow> (err, (l, s'), sl))"
proof (induction i n f err0 s sl0 rule: tryLoop.induct)
  case (1 i n f err0 s sl0)
  show ?case
  proof (cases "int i < n")
    case False
    then show ?thesis by (simp add: tryLoop.simps [of i n])
  next
    case True
    obtain e s1 where fs: "f s = (e, s1)" by (cases "f s")
    then have ul: "unlogged f (l, s) = (e, (l, s1))" by (simp add: unlogged_def)
    show ?thesis
    proof (cases "shouldRetry e")
      case False
      with True fs ul show ?thesis by (simp add: tryLoop.simps [of i n])
    next
      case sr: True
      from "1.IH" [OF True fs [symmetric] _ ] sr True fs ul
      show ?thesis by (simp add: tryLoop.simps [of i n])
    qed
  qed
qed

lemma tryLoop_logged_sim:
  "\<exists>tr. tryLoop i n (logged f) err0 (tr0, s) sl0 =
     (case tryLoop i n f err0 s sl0 of (err, s', sl) \<Rightarrow> (err, (tr, s'), sl))"
proof (induction i n f err0 s sl0 arbitrary: tr0 rule: tryLoop.induct)
  case (1 i n f err0 s sl0)
  show ?case
  proof (cases "int i < n")
    case False
    then show ?thesis by (simp add: tryLoop.simps [of i n])
  next
    case True
    obtain e s1 where fs: "f s = (e, s1)" by (cases "f s")
    then have ul: "logged f (tr0, s) = (e, (tr0 @ [e], s1))" by (simp add: logged_def)
    show ?thesis
    proof (cases "shouldRetry e")
      case False
      with True fs ul show ?thesis by (simp add: tryLoop.simps [of i n])
    next
      case sr: True
      from "1.IH" [OF True fs [symmetric] _ , of "tr0 @ [e]"] sr True fs ul
      show ?thesis by (simp add: tryLoop.simps [of i n])
    qed
  qed
qed

lemma tryLoop_preserves:
  assumes step: "\<And>s e s'. f s = (e, s') \<Longrightarrow> I s \<Longrightarrow> I s'"
    and run: "tryLoop i n f err0 s sl0 = (err, s', sl)" and "I s"
  shows "I s'"
  using assms
proof (induction i n f err0 s sl0 rule: tryLoop.induct)
  case (1 i n f err0 s sl0)
  note step1 = "1.prems"(1) and run1 = "1.prems"(2) and I1 = "1.prems"(3)
  show ?case
  proof (cases "int i < n")
    case False
    with run1 I1 show ?thesis by (simp add: tryLoop.simps [of i n])
  next
    case True
    obtain e s1 where fs: "f s = (e, s1)" by (cases "f s")
    show ?thesis
    proof (cases "shouldRetry e")
      case False
      with True fs run1 have "s' = s1"
        by (auto simp add: tryLoop.simps [of i n])
      with step1 [OF fs I1] show ?thesis by simp
    next
      case sr: True
      with True fs run1 have
        rec: "tryLoop (i + 1) n f e s1 (sl0 @ [int (i * i)]) = (err, s', sl)"
        by (simp add: tryLoop.simps [of i n])
      show ?thesis
      proof (rule "1.IH" [OF True fs [symmetric]])
        show "\<not> \<not> shouldRetry e" using sr by simp
        show "\<And>s e s'. f s = (e, s') \<Longrightarrow> I s \<Longrightarrow> I s'" by (rule step1)
        show "tryLoop (i + 1) n f e s1 (sl0 @ [int (i * i)]) = (err, s', sl)" by (rule rec)
        show "I s1" by (rule step1 [OF fs I1])
      qed
    qed
  qed
qed

lemma shouldRetry_iff:
  "shouldRetry err \<longleftrightarrow>
     (\<exists>e. err = Some e \<and> \<not> errorsIs e KSkipped \<and> \<not> errorsIs e KExtlink \<and>
        (errorsAsErrno e = None \<or>
         (\<exists>eno. errorsAsErrno e = Some eno \<and> eno \<in> {EAGAIN, EINTR, EBUSY, ETIMEDOUT, EIO})))"
  by (auto simp: shouldRetry_def split: option.splits)

lemma tryN_logged:
  assumes "tryN n (logged f) ([], s) = (err, (tr, s'), slept)"
  shows "tryN n f s = (err, s', slept)"
    and "int (length tr) \<le> max 0 n"
    and "\<forall>e \<in> set (butlast tr). shouldRetry e"
    and "int (length tr) < n \<longrightarrow> tr \<noteq> [] \<and> \<not> shouldRetry (last tr)"
    and "err = (if tr = [] then None else last tr)"
    and "slept = map (\<lambda>j. int (j * j)) [0 ..< length (filter shouldRetry tr)]"
    and "\<forall>i. Suc i < length tr \<longrightarrow> i < length slept \<and> slept ! i = int (i * i)"
proof -
  from assms have run: "tryLoop 0 n (logged f) None ([], s) [] = (err, (tr, s'), slept)"
    by (simp add: tryN_def)
  from tryLoop_logged [OF run]
  show b: "int (length tr) \<le> max 0 n" and c: "\<forall>e \<in> set (butlast tr). shouldRetry e"
    and "int (length tr) < n \<longrightarrow> tr \<noteq> [] \<and> \<not> shouldRetry (last tr)"
    and "err = (if tr = [] then None else last tr)"
    and sl: "slept = map (\<lambda>j. int (j * j)) [0 ..< length (filter shouldRetry tr)]"
    by auto
  obtain e1 s1 sl1 where pl: "tryLoop 0 n f None s [] = (e1, s1, sl1)"
    by (cases "tryLoop 0 n f None s []") auto
  with tryLoop_logged_sim [of 0 n f None "[]" s "[]"] run
  show "tryN n f s = (err, s', slept)"
    by (auto simp: tryN_def)
  have "length (butlast tr) \<le> length (filter shouldRetry tr)"
  proof (cases "tr = []")
    case False
    then have "tr = butlast tr @ [last tr]" by simp
    then have "filter shouldRetry tr = filter shouldRetry (butlast tr) @ filter shouldRetry [last tr]"
      by (metis filter_append)
    moreover have "filter shouldRetry (butlast tr) = butlast tr" using c by (simp add: filter_id_conv)
    ultimately show ?thesis by simp
  qed simp
  then show "\<forall>i. Suc i < length tr \<longrightarrow> i < length slept \<and> slept ! i = int (i * i)"
    unfolding sl by auto
qed

lemma deleteObj_calls:
  assumes "deleteObj (\<lambda>k. logged (del k)) key False (([], s), b) = ((tr, s'), b')"
  shows "length tr \<le> 3"
proof -
  obtain err st slept where run: "tryN 3 (logged (del key)) ([], s) = (err, st, slept)"
    by (cases "tryN 3 (logged (del key)) ([], s)") auto
  with assms have "st = (tr, s')" by (auto simp: deleteObj_def split: if_splits)
  with run tryN_logged(2) [of 3 "del key" s err tr s' slept] show ?thesis by simp
qed

lemma single_closure_keeps:
  assumes "tryN n (\<lambda>(c0, st). case unlogged g st of ((c, e), st') \<Rightarrow> (e, (c, st'))) (c1, (tr, s)) =
      (err, (c2, (tr', s')), slept)"
  shows "tr' = tr"
proof -
  let ?f = "\<lambda>(c0, st). case unlogged g st of ((c, e), st') \<Rightarrow> (e, (c, st'))"
  have "(\<lambda>x. fst (snd x) = tr) (c2, (tr', s'))"
  proof (rule tryLoop_preserves [where f = ?f])
    show "tryLoop 0 n ?f None (c1, (tr, s)) [] = (err, (c2, (tr', s')), slept)"
      using assms by (simp add: tryN_def)
    show "fst (snd (c1, (tr, s))) = tr" by simp
    show "\<And>x e x'. ?f x = (e, x') \<Longrightarrow> fst (snd x) = tr \<Longrightarrow> fst (snd x') = tr"
      by (auto simp: unlogged_def split: prod.splits)
  qed
  then show ?thesis by simp
qed

lemma CopyData_create_calls:
  assumes "CopyData (logged create) (unlogged single) (\<lambda>u. unlogged (multiple u)) sz ([], s) =
      (r, (tr, s'))"
  shows "length tr \<le> 1 + 2"
proof -
  let ?single = "\<lambda>(c0 :: 32 word, st). case unlogged single st of ((c, e), st') \<Rightarrow> (e, (c, st'))"
  let ?create = "\<lambda>(upload :: MultipartUpload option, st). case logged create st of
                      (Inl e, s') \<Rightarrow> (Some e, (None, s'))
                    | (Inr up, s') \<Rightarrow> (None, (Some up, s'))"
  show ?thesis
  proof (cases "sz < maxBlock")
    case True
    obtain err c2 tr2 s2 slept where
      run: "tryN 3 ?single (0, ([] :: (goerr + MultipartUpload) list, s)) = (err, (c2, (tr2, s2)), slept)"
      by (cases "tryN 3 ?single (0, ([] :: (goerr + MultipartUpload) list, s))") auto
    from single_closure_keeps [OF run] have "tr2 = []" .
    with assms True run show ?thesis by (auto simp add: CopyData_def)
  next
    case False
    obtain r1 s1 where c1: "create s = (r1, s1)" by (cases "create s")
    then have lc: "logged create ([], s) = (r1, ([r1], s1))" by (simp add: logged_def)
    show ?thesis
    proof (cases r1)
      case (Inr upload)
      with assms False lc show ?thesis
        by (auto simp: CopyData_def unlogged_def split: prod.splits)
    next
      case (Inl e)
      show ?thesis
      proof (cases "e = ENOTSUP")
        case True
        obtain err c2 tr2 s2 slept where run: "tryN 3 ?single (0, ([r1], s1)) = (err, (c2, (tr2, s2)), slept)"
          by (cases "tryN 3 ?single (0, ([r1], s1))") auto
        from single_closure_keeps [OF run] have "tr2 = [r1]" .
        with assms False lc Inl True run show ?thesis by (auto simp add: CopyData_def)
      next
        case ne: False
        obtain err up2 tr2 s2 slept where run: "tryN 2 ?create (None, ([r1], s1)) = (err, (up2, (tr2, s2)), slept)"
          by (cases "tryN 2 ?create (None, ([r1], s1))") auto
        have "length (fst (snd (None :: MultipartUpload option, ([r1], s1)))) \<le> length (fst (snd (up2, (tr2, s2)))) \<and>
              int (length (fst (snd (up2, (tr2, s2))))) - int (length (fst (snd (None :: MultipartUpload option, ([r1], s1))))) \<le> max 0 (2 - int 0)"
        proof (rule tryLoop_count [where f = ?create and cnt = "\<lambda>x. length (fst (snd x))"])
          show "tryLoop 0 2 ?create None (None, ([r1], s1)) [] = (err, (up2, (tr2, s2)), slept)"
            using run by (simp add: tryN_def)
          show "\<And>x e x'. ?create x = (e, x') \<Longrightarrow> length (fst (snd x')) = Suc (length (fst (snd x)))"
            by (auto simp: logged_def split: prod.splits sum.splits)
        qed
        then have len: "length tr2 \<le> 3" by simp
        from assms False lc Inl ne run have "tr = tr2"
          by (auto simp: CopyData_def unlogged_def split: prod.splits option.splits)
        with len show ?thesis by simp
      qed
    qed
  qed
qed

text \<open>
  C3. An error is retryable iff it is not \<open>nil\<close>, is neither \<open>skipped\<close> nor
  \<open>external_link\<close>, and either carries no OS errno or carries one of \<open>EAGAIN\<close>, \<open>EINTR\<close>,
  \<open>EBUSY\<close>, \<open>ETIMEDOUT\<close>, \<open>EIO\<close>. \<open>try(n, f)\<close> calls \<open>f\<close> at most \<open>n\<close> times (\<open>tr\<close> lists the
  results of the calls it made), every result but the last was retryable, it stopped short
  of \<open>n\<close> calls only on a result that is not retryable, and it returns the last result.
  Before the call of index \<open>i + 1\<close> it slept \<open>i * i\<close> seconds (it also sleeps after a last
  retryable result). \<open>deleteObj\<close> calls \<open>Delete\<close> at most 3 times; \<open>CopyData\<close> calls
  \<open>CreateMultipartUpload\<close> once and retries it at most 2 times.
\<close>

theorem retry_policy:
  "(shouldRetry err \<longleftrightarrow>
      (\<exists>e. err = Some e \<and> \<not> errorsIs e KSkipped \<and> \<not> errorsIs e KExtlink \<and>
         (errorsAsErrno e = None \<or>
          (\<exists>eno. errorsAsErrno e = Some eno \<and> eno \<in> {EAGAIN, EINTR, EBUSY, ETIMEDOUT, EIO})))) \<and>
   (tryN n (logged f) ([], s) = (err', (tr, s'), slept) \<longrightarrow>
      tryN n f s = (err', s', slept) \<and>
      int (length tr) \<le> max 0 n \<and>
      (\<forall>e \<in> set (butlast tr). shouldRetry e) \<and>
      (int (length tr) < n \<longrightarrow> tr \<noteq> [] \<and> \<not> shouldRetry (last tr)) \<and>
      err' = (if tr = [] then None else last tr) \<and>
      (\<forall>i. Suc i < length tr \<longrightarrow> i < length slept \<and> slept ! i = int (i * i)) \<and>
      slept = map (\<lambda>j. int (j * j)) [0 ..< length (filter shouldRetry tr)]) \<and>
   (deleteObj (\<lambda>k. logged (del k)) key False (([], d), b) = ((dtr, d'), b') \<longrightarrow> length dtr \<le> 3) \<and>
   (CopyData (logged create) (unlogged single) (\<lambda>u. unlogged (multiple u)) sz ([], c) = (r, (ctr, c')) \<longrightarrow>
      length ctr \<le> 1 + 2)"
  using shouldRetry_iff [of err] tryN_logged [of n f s err' tr s' slept]
    deleteObj_calls [of del key d b dtr d' b']
    CopyData_create_calls [of create single multiple sz c r ctr c']
  by blast

theorem retry_policy_witness:
  "shouldRetry (Some (GoErr [KOther, KErrno EIO] ''read: input/output error'')) \<and>
   \<not> shouldRetry (Some (GoErr [KErrno 2] ''no such file or directory'')) \<and>
   tryN 3 (logged (\<lambda>k :: nat. (if k < 2 then Some (GoErr [KErrno EIO] ''input/output error'') else None, k + 1))) ([], 0)
     = (None, ([Some (GoErr [KErrno EIO] ''input/output error''), Some (GoErr [KErrno EIO] ''input/output error''), None], 3), [0, 1]) \<and>
   tryN 3 (\<lambda>k :: nat. (if k < 2 then Some (GoErr [KErrno EIO] ''input/output error'') else None, k + 1)) 0
     = (None, 3, [0, 1]) \<and>
   deleteObj (\<lambda>k. logged (\<lambda>n :: nat. (None, n + 1))) ''dir/'' False (([], 0), \<lparr>deleted = 0, failed = 0\<rparr>)
     = (([None], 1), \<lparr>deleted = 1, failed = 0\<rparr>) \<and>
   CopyData (logged (\<lambda>n :: nat. (Inl (GoErr [KErrno EIO] ''input/output error''), n + 1)))
       (unlogged (\<lambda>n. ((0, None), n))) (\<lambda>u. unlogged (\<lambda>n. ((0, None), n))) maxBlock ([], 0)
     = ((0, Some (GoErr [KErrno EIO] ''input/output error'')),
        ([Inl (GoErr [KErrno EIO] ''input/output error''), Inl (GoErr [KErrno EIO] ''input/output error''),
          Inl (GoErr [KErrno EIO] ''input/output error'')], 3))"
  using retry_policy [of "Some (GoErr [KOther, KErrno EIO] ''read: input/output error'')" 3
      "\<lambda>k :: nat. (if k < 2 then Some (GoErr [KErrno EIO] ''input/output error'') else None, k + 1)" 0
      None "[Some (GoErr [KErrno EIO] ''input/output error''), Some (GoErr [KErrno EIO] ''input/output error''), None]"
      3 "[0, 1]" "\<lambda>k n :: nat. (None, n + 1)" "''dir/''" 0 "\<lparr>deleted = 0, failed = 0\<rparr>" "[None]" 1
      "\<lparr>deleted = 1, failed = 0\<rparr>"
      "\<lambda>n :: nat. (Inl (GoErr [KErrno EIO] ''input/output error''), n + 1)"
      "\<lambda>n :: nat. ((0, None), n)" "\<lambda>u n. ((0, None), n)" maxBlock 0]
  by (simp add: tryN_def tryLoop.simps logged_def unlogged_def shouldRetry_def errorsIs_def
      errorsAsErrno_def EIO_def EAGAIN_def EINTR_def EBUSY_def ETIMEDOUT_def deleteObj_def
      CopyData_def ENOTSUP_def)

subsection \<open>The merger\<close>

lemma sameFlags_refl [simp]: "sameFlags c c"
  by (simp add: sameFlags_def)

lemma sameFlags_upd [simp]: "sameFlags c (c\<lparr>Limit := l\<rparr>)"
  by (simp add: sameFlags_def)

lemma sameFlags_trans: "sameFlags a b \<Longrightarrow> sameFlags b c \<Longrightarrow> sameFlags a c"
  by (simp add: sameFlags_def)

lemma sameFlags_fields:
  assumes "sameFlags c c'"
  shows "Dirs c' = Dirs c" "Links c' = Links c" "Perms c' = Perms c" "Existing c' = Existing c"
    "IgnoreExisting c' = IgnoreExisting c" "Update c' = Update c" "ForceUpdate c' = ForceUpdate c"
    "CheckAll c' = CheckAll c" "DeleteSrc c' = DeleteSrc c" "DeleteDst c' = DeleteDst c"
proof -
  from assms have e: "c'\<lparr>Limit := 0\<rparr> = c\<lparr>Limit := 0\<rparr>" by (simp add: sameFlags_def)
  show "Dirs c' = Dirs c" using arg_cong [OF e, of Dirs] by simp
  show "Links c' = Links c" using arg_cong [OF e, of Links] by simp
  show "Perms c' = Perms c" using arg_cong [OF e, of Perms] by simp
  show "Existing c' = Existing c" using arg_cong [OF e, of Existing] by simp
  show "IgnoreExisting c' = IgnoreExisting c" using arg_cong [OF e, of IgnoreExisting] by simp
  show "Update c' = Update c" using arg_cong [OF e, of Update] by simp
  show "ForceUpdate c' = ForceUpdate c" using arg_cong [OF e, of ForceUpdate] by simp
  show "CheckAll c' = CheckAll c" using arg_cong [OF e, of CheckAll] by simp
  show "DeleteSrc c' = DeleteSrc c" using arg_cong [OF e, of DeleteSrc] by simp
  show "DeleteDst c' = DeleteDst c" using arg_cong [OF e, of DeleteDst] by simp
qed

lemma extraAction_flags: "sameFlags c c' \<Longrightarrow> extraAction c' d = extraAction c d"
  by (simp add: extraAction_def sameFlags_fields)

lemma tableAction_flags: "sameFlags c c' \<Longrightarrow> tableAction c' obj dst = tableAction c obj dst"
  by (cases dst) (simp_all add: tableAction_def sameFlags_fields)

lemma fromDst_table [simp]: "\<not> fromDst (tableAction cfg obj dst)"
  by (simp add: tableAction_def markChecksum_def markDeleteSrc_def markCopyPerms_def
      markDeleteDst_def split: option.splits)

lemma fromDst_extra [simp]: "fromDst (extraAction cfg d)"
  by (simp add: extraAction_def)

lemma needCopyPerms_files:
  "File o1 \<noteq> None \<Longrightarrow> File o2 \<noteq> None \<Longrightarrow> needCopyPerms o1 o2 = Inr (File o1 \<noteq> File o2)"
  by (cases "File o1"; cases "File o2") (auto simp: needCopyPerms_def fattrs.equality)

lemma decide_none: "decide cfg obj None = Inr ([tableAction cfg obj None], None)"
  by (simp add: decide_def tableAction_def)

lemma decide_greater:
  "Key obj < Key d \<Longrightarrow> decide cfg obj (Some d) = Inr ([tableAction cfg obj None], Some d)"
  by (simp add: decide_def tableAction_def)

lemma decide_equal:
  assumes "\<not> Key obj < Key d" and "Perms cfg \<longrightarrow> File obj \<noteq> None \<and> File d \<noteq> None"
  shows "decide cfg obj (Some d) = Inr ([tableAction cfg obj (Some d)], None)"
proof (cases "Perms cfg")
  case True
  with assms have "needCopyPerms obj d = Inr (File obj \<noteq> File d)"
    by (intro needCopyPerms_files) auto
  with assms(1) True show ?thesis
    by (simp add: decide_def tableAction_def withSize_def)
next
  case False
  with assms(1) show ?thesis
    by (simp add: decide_def tableAction_def withSize_def)
qed

lemma handleExtra_unlimited:
  assumes "Limit cfg < 0"
  shows "\<exists>cfg'. handleExtraObject cfg d = (cfg', [extraAction cfg d], False) \<and>
           Limit cfg' < 0 \<and> sameFlags cfg cfg'"
  using assms by (auto simp: handleExtraObject_def extraAction_def withSize_def Let_def)

lemma skipLower_unlimited:
  assumes "Limit cfg < 0"
  shows "\<exists>cfg'. skipLower cfg obj (map Some D) =
           (cfg', map (extraAction cfg) (takeWhile (\<lambda>d. Key d < Key obj) D),
            Inr (case dropWhile (\<lambda>d. Key d < Key obj) D of
                   [] \<Rightarrow> (None, [])
                 | d # ds \<Rightarrow> (Some d, map Some ds))) \<and>
           Limit cfg' < 0 \<and> sameFlags cfg cfg'"
  using assms
proof (induction D arbitrary: cfg)
  case Nil
  then show ?case by simp
next
  case (Cons d D)
  show ?case
  proof (cases "Key obj \<le> Key d")
    case True
    with Cons.prems show ?thesis by (simp add: not_less [symmetric])
  next
    case False
    from handleExtra_unlimited [OF Cons.prems, of d] obtain c1 where
      h: "handleExtraObject cfg d = (c1, [extraAction cfg d], False)" "Limit c1 < 0" "sameFlags cfg c1"
      by blast
    from Cons.IH [OF h(2)] obtain c2 where
      r: "skipLower c1 obj (map Some D) =
           (c2, map (extraAction c1) (takeWhile (\<lambda>d. Key d < Key obj) D),
            Inr (case dropWhile (\<lambda>d. Key d < Key obj) D of
                   [] \<Rightarrow> (None, [])
                 | d # ds \<Rightarrow> (Some d, map Some ds)))" "Limit c2 < 0" "sameFlags c1 c2"
      by blast
    have "map (extraAction c1) = map (extraAction cfg)"
      using extraAction_flags [OF h(3)] by auto
    with False h r sameFlags_trans [OF h(3) r(3)] show ?thesis
      by (intro exI [of _ c2]) (simp add: not_le)
  qed
qed

lemma drainAll_unlimited:
  assumes "Limit cfg < 0"
  shows "drainAll cfg (map Some D) = (map (extraAction cfg) D, ReturnNil)"
  using assms
proof (induction D arbitrary: cfg)
  case Nil
  then show ?case by simp
next
  case (Cons d D)
  from handleExtra_unlimited [OF Cons.prems, of d] obtain c1 where
    h: "handleExtraObject cfg d = (c1, [extraAction cfg d], False)" "Limit c1 < 0" "sameFlags cfg c1"
    by blast
  have "map (extraAction c1) = map (extraAction cfg)"
    using extraAction_flags [OF h(3)] by auto
  with Cons.IH [OF h(2)] h show ?case by simp
qed

lemma buffer_is_head:
  "produceLoop cfg (Some d) S dstkeys = produceLoop cfg None S (Some d # dstkeys)"
proof (induction S arbitrary: cfg)
  case Nil
  show ?case by (simp add: drainRest_def)
next
  case (Cons x S)
  show ?case
  proof (cases x)
    case None
    then show ?thesis by simp
  next
    case (Some obj)
    have "advanceDst c obj (Some d) dstkeys = advanceDst c obj None (Some d # dstkeys)" for c
      by (auto simp: advanceDst_def not_le split: prod.splits)
    with Some Cons.IH show ?thesis by simp
  qed
qed

lemma produceLoop_step:
  assumes lim: "Limit cfg < 0" and keep: "Dirs cfg \<or> \<not> IsDir obj"
    and perms: "Perms cfg \<longrightarrow> File obj \<noteq> None \<and> (\<forall>d \<in> set D. File d \<noteq> None)"
  shows "\<exists>c1. Limit c1 < 0 \<and> sameFlags cfg c1 \<and>
     produceLoop cfg None (Some obj # S) (map Some D) =
       (case produceLoop c1 None S
               (map Some (case dropWhile (\<lambda>d. Key d < Key obj) D of
                            [] \<Rightarrow> []
                          | d # ds \<Rightarrow> if Key obj < Key d then d # ds else ds)) of
          (evs, out) \<Rightarrow>
            (map (extraAction cfg) (takeWhile (\<lambda>d. Key d < Key obj) D) @
             [tableAction cfg obj (case dropWhile (\<lambda>d. Key d < Key obj) D of
                                     [] \<Rightarrow> None
                                   | d # ds \<Rightarrow> if Key obj < Key d then None else Some d)] @ evs,
             out))"
proof -
  define rest where "rest = dropWhile (\<lambda>d. Key d < Key obj) D"
  define lows where "lows = takeWhile (\<lambda>d. Key d < Key obj) D"
  from skipLower_unlimited [OF lim, of obj D] obtain c1 where
    sk: "skipLower cfg obj (map Some D) =
           (c1, map (extraAction cfg) lows,
            Inr (case rest of [] \<Rightarrow> (None, []) | d # ds \<Rightarrow> (Some d, map Some ds)))"
    and c1: "Limit c1 < 0" "sameFlags cfg c1"
    unfolding rest_def lows_def by blast
  have adv: "advanceDst cfg obj None (map Some D) =
           (c1, map (extraAction cfg) lows,
            Inr (case rest of [] \<Rightarrow> (None, []) | d # ds \<Rightarrow> (Some d, map Some ds)))"
    using sk by (simp add: advanceDst_def)
  have ta: "tableAction c1 obj x = tableAction cfg obj x" for x
    by (rule tableAction_flags [OF c1(2)])
  have pc: "Perms c1 = Perms cfg" using sameFlags_fields [OF c1(2)] by simp
  have nk: "(\<not> Dirs cfg \<and> IsDir obj) = False" using keep by simp
  have "produceLoop cfg None (Some obj # S) (map Some D) =
       (case produceLoop c1 None S
               (map Some (case rest of
                            [] \<Rightarrow> []
                          | d # ds \<Rightarrow> if Key obj < Key d then d # ds else ds)) of
          (evs, out) \<Rightarrow>
            (map (extraAction cfg) lows @
             [tableAction cfg obj (case rest of
                                     [] \<Rightarrow> None
                                   | d # ds \<Rightarrow> if Key obj < Key d then None else Some d)] @ evs,
             out))"
  proof (cases rest)
    case Nil
    with adv lim nk ta show ?thesis
      by (cases "Dirs cfg") (simp_all add: decide_none split: prod.splits)
  next
    case (Cons d ds)
    then have "d \<in> set D" unfolding rest_def by (metis list.set_intros(1) set_dropWhileD)
    with perms have pd: "Perms c1 \<longrightarrow> File obj \<noteq> None \<and> File d \<noteq> None" using pc by simp
    show ?thesis
    proof (cases "Key obj < Key d")
      case True
      with adv lim nk ta Cons show ?thesis
        by (cases "Dirs cfg") (simp_all add: decide_greater buffer_is_head split: prod.splits)
    next
      case False
      with adv lim nk ta Cons decide_equal [OF False pd] show ?thesis
        by (cases "Dirs cfg") (simp_all split: prod.splits)
    qed
  qed
  with c1 show ?thesis unfolding rest_def lows_def by blast
qed

lemma split_at_key:
  assumes "sorted_wrt (<) (map Key D)" and "\<forall>s \<in> set S. Key obj < Key s"
  shows "matching D obj = matchedAt (Key obj) D"
    and "\<forall>s. Key obj < Key s \<longrightarrow> matching D s = matching (restAfter (Key obj) D) s"
    and "filter (isExtra cfg (obj # S)) D =
           takeWhile (\<lambda>d. Key d < Key obj) D @ filter (isExtra cfg S) (restAfter (Key obj) D)"
    and "sorted_wrt (<) (map Key (restAfter (Key obj) D))"
  using assms(1)
proof (induction D)
  case Nil
  {
    case 1 show ?case by (simp add: matching_def matchedAt_def)
  next
    case 2 show ?case by (simp add: matching_def restAfter_def)
  next
    case 3 show ?case by (simp add: restAfter_def)
  next
    case 4 show ?case by (simp add: restAfter_def)
  }
next
  case (Cons d D)
  {
    case 1
    then have sd: "sorted_wrt (<) (map Key D)" and gt: "\<forall>x \<in> set D. Key d < Key x" by auto
    show ?case
    proof (cases "Key d < Key obj")
      case True
      then have "Key d \<noteq> Key obj" by auto
      with True Cons.IH(1) [OF sd] show ?thesis by (simp add: matching_def matchedAt_def)
    next
      case False
      show ?thesis
      proof (cases "Key obj < Key d")
        case True
        with gt have "\<forall>x \<in> set D. Key x \<noteq> Key obj" by auto
        then have "find (\<lambda>x. Key x = Key obj) D = None" by (simp add: find_None_iff)
        with True False show ?thesis by (simp add: matching_def matchedAt_def)
      next
        case f2: False
        with False have "Key d = Key obj" by simp
        with False show ?thesis by (simp add: matching_def matchedAt_def)
      qed
    qed
  next
    case 2
    then have sd: "sorted_wrt (<) (map Key D)" and gt: "\<forall>x \<in> set D. Key d < Key x" by auto
    show ?case
    proof (cases "Key d < Key obj")
      case True
      with Cons.IH(2) [OF sd] show ?thesis by (auto simp add: matching_def restAfter_def)
    next
      case False
      then show ?thesis by (auto simp add: matching_def restAfter_def)
    qed
  next
    case 3
    then have sd: "sorted_wrt (<) (map Key D)" and gt: "\<forall>x \<in> set D. Key d < Key x" by auto
    show ?case
    proof (cases "Key d < Key obj")
      case True
      then have "isExtra cfg (obj # S) d" using assms(2) by (auto simp: isExtra_def)
      with True Cons.IH(3) [OF sd] show ?thesis by (simp add: restAfter_def)
    next
      case False
      have same: "isExtra cfg (obj # S) x = isExtra cfg S x" if "x \<in> set D" for x
        using that gt False by (auto simp: isExtra_def)
      show ?thesis
      proof (cases "Key obj < Key d")
        case True
        then have "isExtra cfg (obj # S) d = isExtra cfg S d" by (auto simp: isExtra_def)
        with True False same show ?thesis by (simp add: restAfter_def cong: filter_cong)
      next
        case f2: False
        with False have "Key d = Key obj" by simp
        then have "\<not> isExtra cfg (obj # S) d" by (simp add: isExtra_def)
        with f2 False same show ?thesis by (simp add: restAfter_def cong: filter_cong)
      qed
    qed
  next
    case 4
    then have sd: "sorted_wrt (<) (map Key D)" by auto
    show ?case
    proof (cases "Key d < Key obj")
      case True
      with Cons.IH(4) [OF sd] show ?thesis by (simp add: restAfter_def)
    next
      case False
      with 4 show ?thesis by (auto simp add: restAfter_def)
    qed
  }
qed

lemma kept_flags: "sameFlags c c' \<Longrightarrow> kept c' S = kept c S"
  by (simp add: kept_def sameFlags_fields)

lemma isExtra_flags: "sameFlags c c' \<Longrightarrow> isExtra c' S d = isExtra c S d"
  by (simp add: isExtra_def sameFlags_fields)

lemma set_restAfter: "set (restAfter k D) \<subseteq> set D"
proof (cases "dropWhile (\<lambda>d. Key d < k) D")
  case Nil
  show ?thesis unfolding restAfter_def Nil by simp
next
  case (Cons d ds)
  have "set (dropWhile (\<lambda>d. Key d < k) D) \<subseteq> set D" by (auto dest: set_dropWhileD)
  then have "set (d # ds) \<subseteq> set D" unfolding Cons .
  then show ?thesis unfolding restAfter_def Cons by auto
qed

lemma filter_not_fromDst_extras [simp]: "filter (\<lambda>e. \<not> fromDst e) (map (extraAction cfg) xs) = []"
  by (induction xs) auto

lemma filter_fromDst_extras [simp]: "filter fromDst (map (extraAction cfg) xs) = map (extraAction cfg) xs"
  by (induction xs) auto

lemma produceLoop_merge:
  assumes "Limit cfg < 0" and "sorted_wrt (<) (map Key (kept cfg S))"
    and "sorted_wrt (<) (map Key D)"
    and "Perms cfg \<longrightarrow> (\<forall>x \<in> set S \<union> set D. File x \<noteq> None)"
  shows "\<exists>evs. produceLoop cfg None (map Some S) (map Some D) = (evs, ReturnNil) \<and>
     filter (\<lambda>e. \<not> fromDst e) evs = map (\<lambda>obj. tableAction cfg obj (matching D obj)) (kept cfg S) \<and>
     filter fromDst evs = map (extraAction cfg) (filter (isExtra cfg (kept cfg S)) D)"
  using assms
proof (induction S arbitrary: cfg D)
  case Nil
  show ?case
  proof (cases "DeleteDst cfg")
    case True
    with Nil.prems(1) show ?thesis
      by (simp add: drainRest_def drainAll_unlimited kept_def isExtra_def)
  next
    case False
    then show ?thesis by (simp add: drainRest_def kept_def isExtra_def)
  qed
next
  case (Cons obj S)
  show ?case
  proof (cases "\<not> Dirs cfg \<and> IsDir obj")
    case True
    then have k: "kept cfg (obj # S) = kept cfg S" by (simp add: kept_def)
    have "\<exists>evs. produceLoop cfg None (map Some S) (map Some D) = (evs, ReturnNil) \<and>
       filter (\<lambda>e. \<not> fromDst e) evs = map (\<lambda>obj. tableAction cfg obj (matching D obj)) (kept cfg S) \<and>
       filter fromDst evs = map (extraAction cfg) (filter (isExtra cfg (kept cfg S)) D)"
      using Cons.prems by (intro Cons.IH) (simp_all add: k)
    with True show ?thesis by (simp add: k)
  next
    case False
    then have keep: "Dirs cfg \<or> \<not> IsDir obj" by simp
    then have k: "kept cfg (obj # S) = obj # kept cfg S" by (auto simp add: kept_def)
    from Cons.prems(2) have above: "\<forall>s \<in> set (kept cfg S). Key obj < Key s"
      and sk: "sorted_wrt (<) (map Key (kept cfg S))" by (simp_all add: k)
    let ?D' = "restAfter (Key obj) D"
    note sp = split_at_key [OF Cons.prems(3) above]
    have perms: "Perms cfg \<longrightarrow> File obj \<noteq> None \<and> (\<forall>d \<in> set D. File d \<noteq> None)"
      using Cons.prems(4) by simp
    from produceLoop_step [OF Cons.prems(1) keep perms, of "map Some S"] obtain c1 where
      c1: "Limit c1 < 0" "sameFlags cfg c1" and
      st: "produceLoop cfg None (Some obj # map Some S) (map Some D) =
       (case produceLoop c1 None (map Some S) (map Some ?D') of
          (evs, out) \<Rightarrow>
            (map (extraAction cfg) (takeWhile (\<lambda>d. Key d < Key obj) D) @
             [tableAction cfg obj (matchedAt (Key obj) D)] @ evs, out))"
      unfolding restAfter_def matchedAt_def by blast
    have fl: "kept c1 S = kept cfg S" "Perms c1 = Perms cfg"
      using kept_flags [OF c1(2)] sameFlags_fields [OF c1(2)] by simp_all
    have "\<exists>evs. produceLoop c1 None (map Some S) (map Some ?D') = (evs, ReturnNil) \<and>
       filter (\<lambda>e. \<not> fromDst e) evs = map (\<lambda>obj. tableAction c1 obj (matching ?D' obj)) (kept c1 S) \<and>
       filter fromDst evs = map (extraAction c1) (filter (isExtra c1 (kept c1 S)) ?D')"
    proof (rule Cons.IH [OF c1(1)])
      show "sorted_wrt (<) (map Key (kept c1 S))" using sk fl by simp
      show "sorted_wrt (<) (map Key ?D')" by (rule sp(4))
      show "Perms c1 \<longrightarrow> (\<forall>x \<in> set S \<union> set ?D'. File x \<noteq> None)"
        using Cons.prems(4) fl set_restAfter [of "Key obj" D] by auto
    qed
    then obtain evs' where
      r: "produceLoop c1 None (map Some S) (map Some ?D') = (evs', ReturnNil)"
      and r1: "filter (\<lambda>e. \<not> fromDst e) evs' = map (\<lambda>obj. tableAction c1 obj (matching ?D' obj)) (kept c1 S)"
      and r2: "filter fromDst evs' = map (extraAction c1) (filter (isExtra c1 (kept c1 S)) ?D')"
      by blast
    have m1: "map (\<lambda>obj. tableAction c1 obj (matching ?D' obj)) (kept c1 S) =
              map (\<lambda>obj. tableAction cfg obj (matching D obj)) (kept cfg S)"
      unfolding fl using above sp(2) by (auto simp: tableAction_flags [OF c1(2)])
    have m2: "map (extraAction c1) (filter (isExtra c1 (kept c1 S)) ?D') =
              map (extraAction cfg) (filter (isExtra cfg (kept cfg S)) ?D')"
      unfolding fl using extraAction_flags [OF c1(2)] isExtra_flags [OF c1(2)] by (auto cong: filter_cong)
    show ?thesis
      using st r r1 r2 unfolding m1 m2 k sp(3) by (simp del: produceLoop.simps add: sp(1))
  qed
qed

lemma filterStream_somes: "filterStream keep (map Some S) = map Some (filter keep S)"
  by (induction S) auto

lemma sorted_filter_keys:
  "sorted_wrt (<) (map Key S) \<Longrightarrow> sorted_wrt (<) (map Key (filter P S))"
  by (induction S) auto

lemma eventKey_table [simp]: "eventKey (tableAction cfg obj dst) = Key obj"
  by (simp add: tableAction_def split: option.splits)

lemma produce_merge:
  assumes "Limit cfg < 0" and "sorted_wrt (<) (map Key S)" and "sorted_wrt (<) (map Key D)"
    and "Perms cfg \<longrightarrow> (\<forall>x \<in> set S \<union> set D. File x \<noteq> None)"
  shows "\<exists>evs. produce cfg keep (map Some S) (map Some D) = (evs, ReturnNil) \<and>
     filter (\<lambda>e. \<not> fromDst e) evs =
       map (\<lambda>obj. tableAction cfg obj (matching (filter keep D) obj)) (kept cfg (filter keep S)) \<and>
     filter fromDst evs =
       map (extraAction cfg) (filter (isExtra cfg (kept cfg (filter keep S))) (filter keep D))"
  unfolding produce_def filterStream_somes
proof (rule produceLoop_merge [OF assms(1)])
  show "sorted_wrt (<) (map Key (kept cfg (filter keep S)))"
    unfolding kept_def by (intro sorted_filter_keys assms(2))
  show "sorted_wrt (<) (map Key (filter keep D))" by (intro sorted_filter_keys assms(3))
  show "Perms cfg \<longrightarrow> (\<forall>x \<in> set (filter keep S) \<union> set (filter keep D). File x \<noteq> None)"
    using assms(4) by auto
qed

text \<open>
  C1 (amended). For every pair of strictly ascending streams without the listing-failure
  sentinel and every configuration with no limit (\<open>Limit < 0\<close>; when \<open>Perms\<close> is set every
  object carries POSIX attributes), the merger returns \<open>nil\<close> and takes exactly one decision
  per source key that passes the filter and is not a directory dropped because \<open>Dirs\<close> is
  off, in stream order, following the table of \<open>tableAction\<close>: with no destination object
  of the same key, skip when \<open>Existing\<close> is set, otherwise copy; with one, skip if
  \<open>IgnoreExisting\<close>; copy if \<open>ForceUpdate\<close>, or \<open>Update\<close> and the source's modification time is
  later in whole seconds, or not \<open>Update\<close> and the sizes differ; skip if \<open>Update\<close> and the
  destination's is later in whole seconds; otherwise the \<open>CHECKSUM\<close> marker if \<open>CheckAll\<close>,
  else the \<open>DELETE_SRC\<close> marker if \<open>DeleteSrc\<close> (a directory is deferred), else the
  \<open>COPY_PERMS\<close> marker if \<open>Perms\<close> and the attributes differ, else skip.
\<close>

theorem merger_decisions:
  assumes "Limit cfg < 0" and "sorted_wrt (<) (map Key S)" and "sorted_wrt (<) (map Key D)"
    and "Perms cfg \<longrightarrow> (\<forall>x \<in> set S \<union> set D. File x \<noteq> None)"
  shows "\<exists>evs. produce cfg keep (map Some S) (map Some D) = (evs, ReturnNil) \<and>
     filter (\<lambda>e. \<not> fromDst e) evs =
       map (\<lambda>obj. tableAction cfg obj (matching (filter keep D) obj)) (kept cfg (filter keep S)) \<and>
     map eventKey (filter (\<lambda>e. \<not> fromDst e) evs) = map Key (kept cfg (filter keep S))"
proof -
  from produce_merge [OF assms, of keep] obtain evs where
    e: "produce cfg keep (map Some S) (map Some D) = (evs, ReturnNil)"
      "filter (\<lambda>e. \<not> fromDst e) evs =
       map (\<lambda>obj. tableAction cfg obj (matching (filter keep D) obj)) (kept cfg (filter keep S))"
    by blast
  then have "map eventKey (filter (\<lambda>e. \<not> fromDst e) evs) = map Key (kept cfg (filter keep S))"
    by simp
  with e show ?thesis by blast
qed

text \<open>
  C5 (amended). Under the same conditions, the destination objects the merger handles as
  extra are those that pass the filter, have no equal processed source key, and are below
  some processed source key or, when \<open>DeleteDst\<close> is set, remain after the source stream.
  For each of them, in stream order: when \<open>DeleteDst\<close> is set and the object is not a
  directory while \<open>Dirs\<close> is off, a \<open>DELETE_DST\<close> task is sent, or its key is stashed in
  \<open>dstDelayDel\<close> if it is a directory; otherwise it is ignored and counted as extra. When
  \<open>DeleteDst\<close> is not set, what remains of the destination stream after the last source
  key is not read and not counted.
\<close>

theorem extra_destination_keys:
  assumes "Limit cfg < 0" and "sorted_wrt (<) (map Key S)" and "sorted_wrt (<) (map Key D)"
    and "Perms cfg \<longrightarrow> (\<forall>x \<in> set S \<union> set D. File x \<noteq> None)"
  shows "\<exists>evs. produce cfg keep (map Some S) (map Some D) = (evs, ReturnNil) \<and>
     filter fromDst evs =
       map (extraAction cfg) (filter (isExtra cfg (kept cfg (filter keep S))) (filter keep D))"
  using produce_merge [OF assms, of keep] by blast

text \<open>The definitions that evaluate the producer on concrete streams.\<close>

lemmas produce_eval = produce_def plainConfig_def fileObj_def dirObj_def advanceDst_def decide_def
  drainRest_def handleExtraObject_def withSize_def unixSec_def markDeleteDst_def
  markChecksum_def markDeleteSrc_def markCopyPerms_def needCopyPerms_def

text \<open>
  The claim as stated fails for a configuration with a limit (with \<open>Limit = 1\<close> the second
  source key gets no decision), for a directory when \<open>Dirs\<close> is off (it is dropped), and for
  modification times that differ by less than a second (the source is newer, \<open>Update\<close> is
  set, and the object is skipped).
\<close>

theorem merger_decisions_counterexample:
  "produce (plainConfig\<lparr>Limit := 1\<rparr>) (\<lambda>x. True)
      [Some (fileObj ''a'' 1 0), Some (fileObj ''b'' 1 0)] []
     = ([Send (Plain (fileObj ''a'' 1 0))], ReturnNil) \<and>
   produce plainConfig (\<lambda>x. True) [Some (dirObj ''d/'')] [] = ([], ReturnNil) \<and>
   Mtime (fileObj ''a'' 1 10200000000) < Mtime (fileObj ''a'' 1 10500000000) \<and>
   produce (plainConfig\<lparr>Update := True\<rparr>) (\<lambda>x. True)
      [Some (fileObj ''a'' 1 10500000000)] [Some (fileObj ''a'' 1 10200000000)]
     = ([SkipIt (fileObj ''a'' 1 10500000000)], ReturnNil)"
  by (simp add: produce_eval)

text \<open>
  The claim as stated fails when \<open>DeleteDst\<close> is not set and the source stream is exhausted
  (the remaining destination key is not counted as extra), and for a destination directory
  when \<open>DeleteDst\<close> is set and \<open>Dirs\<close> is off (it is counted as extra, not stashed).
\<close>

theorem extra_destination_keys_counterexample:
  "produce plainConfig (\<lambda>x. True) [] [Some (fileObj ''x'' 1 0)] = ([], ReturnNil) \<and>
   produce (plainConfig\<lparr>DeleteDst := True\<rparr>) (\<lambda>x. True) [Some (fileObj ''z'' 1 0)] [Some (dirObj ''d/'')]
     = ([Extra (dirObj ''d/''), Send (Plain (fileObj ''z'' 1 0))], ReturnNil)"
  by (simp add: produce_eval)

theorem merger_decisions_witness:
  "\<exists>evs. produce (plainConfig\<lparr>Perms := True, DeleteDst := True\<rparr>) (\<lambda>x. True)
       (map Some [(fileObj ''a'' 1 0)\<lparr>File := Some \<lparr>Mode = 420, Owner = ''u'', Group = ''g''\<rparr>\<rparr>,
                  (fileObj ''c'' 2 0)\<lparr>File := Some \<lparr>Mode = 420, Owner = ''u'', Group = ''g''\<rparr>\<rparr>])
       (map Some [(fileObj ''a'' 1 0)\<lparr>File := Some \<lparr>Mode = 384, Owner = ''u'', Group = ''g''\<rparr>\<rparr>,
                  (fileObj ''b'' 5 0)\<lparr>File := Some \<lparr>Mode = 420, Owner = ''u'', Group = ''g''\<rparr>\<rparr>])
     = (evs, ReturnNil) \<and>
     filter (\<lambda>e. \<not> fromDst e) evs =
       [Send (Sized ((fileObj ''a'' 1 0)\<lparr>File := Some \<lparr>Mode = 420, Owner = ''u'', Group = ''g''\<rparr>\<rparr>) markCopyPerms),
        Send (Plain ((fileObj ''c'' 2 0)\<lparr>File := Some \<lparr>Mode = 420, Owner = ''u'', Group = ''g''\<rparr>\<rparr>))] \<and>
     map eventKey (filter (\<lambda>e. \<not> fromDst e) evs) = [''a'', ''c'']"
  using merger_decisions [of "plainConfig\<lparr>Perms := True, DeleteDst := True\<rparr>"
      "[(fileObj ''a'' 1 0)\<lparr>File := Some \<lparr>Mode = 420, Owner = ''u'', Group = ''g''\<rparr>\<rparr>,
        (fileObj ''c'' 2 0)\<lparr>File := Some \<lparr>Mode = 420, Owner = ''u'', Group = ''g''\<rparr>\<rparr>]"
      "[(fileObj ''a'' 1 0)\<lparr>File := Some \<lparr>Mode = 384, Owner = ''u'', Group = ''g''\<rparr>\<rparr>,
        (fileObj ''b'' 5 0)\<lparr>File := Some \<lparr>Mode = 420, Owner = ''u'', Group = ''g''\<rparr>\<rparr>]"
      "\<lambda>x. True"]
  by (simp add: produce_eval tableAction_def matching_def kept_def)

theorem extra_destination_keys_witness:
  "\<exists>evs. produce (plainConfig\<lparr>Dirs := True, DeleteDst := True\<rparr>) (\<lambda>x. True)
       (map Some [fileObj ''b'' 1 0, fileObj ''d'' 2 0])
       (map Some [fileObj ''a'' 1 0, fileObj ''b'' 1 0, dirObj ''c/'', fileObj ''e'' 3 0])
     = (evs, ReturnNil) \<and>
     filter fromDst evs =
       [Send (Sized (fileObj ''a'' 1 0) markDeleteDst), DstDelayDel ''c/'',
        Send (Sized (fileObj ''e'' 3 0) markDeleteDst)]"
  using extra_destination_keys [of "plainConfig\<lparr>Dirs := True, DeleteDst := True\<rparr>"
      "[fileObj ''b'' 1 0, fileObj ''d'' 2 0]"
      "[fileObj ''a'' 1 0, fileObj ''b'' 1 0, dirObj ''c/'', fileObj ''e'' 3 0]" "\<lambda>x. True"]
  by (simp add: produce_eval extraAction_def isExtra_def kept_def)

lemma filterStream_subset: "Some obj \<in> set (filterStream keep S) \<Longrightarrow> Some obj \<in> set S"
proof (induction S)
  case (Cons x S)
  then show ?case by (cases x) (auto split: if_splits)
qed simp

lemma produceLoop_no_dst:
  assumes "produceLoop cfg None S [] = (evs, out)"
  shows "\<forall>e \<in> set evs. \<exists>obj. Some obj \<in> set S \<and> e = tableAction cfg obj None"
  using assms
proof (induction S arbitrary: cfg evs out)
  case Nil
  then show ?case by (cases "DeleteDst cfg") (auto simp: drainRest_def)
next
  case (Cons x S)
  show ?case
  proof (cases x)
    case None
    with Cons.prems show ?thesis by simp
  next
    case (Some obj)
    show ?thesis
    proof (cases "\<not> Dirs cfg \<and> IsDir obj")
      case True
      with Some Cons.prems have "produceLoop cfg None S [] = (evs, out)" by simp
      from Cons.IH [OF this] show ?thesis by auto
    next
      case nd: False
      show ?thesis
      proof (cases "Limit cfg = 0")
        case True
        with Some nd Cons.prems show ?thesis by auto
      next
        case False
        define c1 where "c1 = (if Limit cfg \<ge> 0 then cfg\<lparr>Limit := Limit cfg - 1\<rparr> else cfg)"
        have sf: "sameFlags cfg c1" by (simp add: c1_def)
        obtain evs' out' where r: "produceLoop c1 None S [] = (evs', out')"
          by (cases "produceLoop c1 None S []") auto
        have adv: "advanceDst c1 obj None [] = (c1, [], Inr (None, []))"
          by (simp add: advanceDst_def)
        from Some nd False Cons.prems adv r
        have ev: "evs = tableAction c1 obj None # evs'"
          unfolding c1_def [symmetric]
          by (cases "Dirs cfg") (auto simp: decide_none c1_def [symmetric])
        from Cons.IH [OF r] have "\<forall>e \<in> set evs'. \<exists>obj. Some obj \<in> set S \<and> e = tableAction c1 obj None" .
        with ev Some show ?thesis
          by (auto simp: tableAction_flags [OF sf])
      qed
    qed
  qed
qed

lemma produce_no_dst:
  assumes "produce cfg keep srckeys [] = (evs, out)"
  shows "\<forall>e \<in> set evs. \<not> fromDst e \<and> (\<exists>obj. Some obj \<in> set srckeys \<and> e = tableAction cfg obj None)"
proof -
  from assms have "produceLoop cfg None (filterStream keep srckeys) [] = (evs, out)"
    by (simp add: produce_def)
  from produceLoop_no_dst [OF this] show ?thesis
    by (auto dest: filterStream_subset)
qed

lemma single_force:
  assumes "ForceUpdate cfg"
  shows "startSingleProducer (tracedListers ls) cfg keep prefix (tr, w) =
     (case StoreListAll ls SrcStore prefix w of
        (res, w1) \<Rightarrow>
          ((case res of
              Inl err \<Rightarrow> Inl (errorf (''list '' @ StoreName ls SrcStore @ '': '' @ msg err))
            | Inr srckeys \<Rightarrow> Inr (produce cfg keep srckeys [])),
           (tr @ [LListAll SrcStore prefix res], w1)))"
  using assms
  by (simp add: startSingleProducer_def tracedListers_def record_lcall_def split: sum.splits prod.splits)

lemma single_force_run:
  assumes "ForceUpdate cfg"
    and "startSingleProducer (tracedListers ls) cfg keep prefix (tr, w) = (r, (tr', w'))"
  shows "\<exists>res. tr' = tr @ [LListAll SrcStore prefix res] \<and>
           r = (case res of
                  Inl err \<Rightarrow> Inl (errorf (''list '' @ StoreName ls SrcStore @ '': '' @ msg err))
                | Inr srckeys \<Rightarrow> Inr (produce cfg keep srckeys []))"
  using assms(2) unfolding single_force [OF assms(1)] by (auto split: prod.splits)

lemma listing_force_run:
  assumes f: "ForceUpdate cfg"
    and run: "startProducerListing (tracedListers ls) cfg keep lt ld prefix (tr, w) = (r, (tr', w'))"
  shows "\<exists>new. tr' = tr @ new \<and> (\<forall>c \<in> set new. \<not> asksDst c) \<and>
           (\<forall>evs out. r = Inr (evs, out) \<longrightarrow>
              (\<exists>c \<in> set new. \<exists>srckeys. sourceListing c = Some srckeys \<and>
                 (evs, out) = produce cfg keep srckeys []))"
proof (cases "lt \<le> 1 \<or> ld \<le> 0")
  case True
  with run have "startSingleProducer (tracedListers ls) cfg keep prefix (tr, w) = (r, (tr', w'))"
    by (simp add: startProducerListing_def)
  from single_force_run [OF f this] obtain res where
    "tr' = tr @ [LListAll SrcStore prefix res]"
    "r = (case res of
            Inl err \<Rightarrow> Inl (errorf (''list '' @ StoreName ls SrcStore @ '': '' @ msg err))
          | Inr srckeys \<Rightarrow> Inr (produce cfg keep srckeys []))" by blast
  then show ?thesis by (cases res) auto
next
  case False
  obtain res w2 where l: "StoreListCommonPrefix ls SrcStore prefix w = (res, w2)"
    by (cases "StoreListCommonPrefix ls SrcStore prefix w")
  then have tl: "StoreListCommonPrefix (tracedListers ls) SrcStore prefix (tr, w) =
      (res, (tr @ [LListCommonPrefix SrcStore prefix res], w2))"
    by (simp add: tracedListers_def record_lcall_def)
  show ?thesis
  proof (cases res)
    case (Inr srckeys)
    with run False tl f have "tr' = tr @ [LListCommonPrefix SrcStore prefix (Inr srckeys)]"
      "r = Inr (produce cfg keep (map Some srckeys) [])"
      by (simp_all add: startProducerListing_def)
    then show ?thesis by auto
  next
    case (Inl err)
    show ?thesis
    proof (cases "err = ENOTSUP")
      case ne: False
      with run False tl Inl have "tr' = tr @ [LListCommonPrefix SrcStore prefix (Inl err)]"
        "r = Inl (errorf (''list '' @ StoreName (tracedListers ls) SrcStore @ '' with delimiter: '' @ msg err))"
        by (simp_all add: startProducerListing_def)
      then show ?thesis by auto
    next
      case True
      with run False tl Inl have "startSingleProducer (tracedListers ls) cfg keep prefix
          (tr @ [LListCommonPrefix SrcStore prefix (Inl err)], w2) = (r, (tr', w'))"
        by (simp add: startProducerListing_def)
      from single_force_run [OF f this] obtain res2 where
        "tr' = (tr @ [LListCommonPrefix SrcStore prefix (Inl err)]) @ [LListAll SrcStore prefix res2]"
        "r = (case res2 of
                Inl err \<Rightarrow> Inl (errorf (''list '' @ StoreName ls SrcStore @ '': '' @ msg err))
              | Inr srckeys \<Rightarrow> Inr (produce cfg keep srckeys []))" by blast
      then show ?thesis by (cases res2) auto
    qed
  qed
qed

lemma produceSingleObject_run:
  assumes "produceSingleObject (tracedListers ls) cfg keep key (tr, w) = (r, (tr', w'))"
  shows "\<exists>new. tr' = tr @ new \<and> (\<forall>c \<in> set new. \<not> listsDst c)"
proof -
  obtain h w1 where h: "StoreHead ls SrcStore key w = (h, w1)" by (cases "StoreHead ls SrcStore key w")
  obtain d w2 where d: "StoreHead ls DstStore key w1 = (d, w2)" by (cases "StoreHead ls DstStore key w1")
  from assms h d show ?thesis
    by (cases h; cases d)
       (auto simp: produceSingleObject_def tracedListers_def record_lcall_def split: if_splits)
qed

lemma asksDst_lists: "\<not> asksDst c \<Longrightarrow> \<not> listsDst c"
  by (cases c) auto

lemma startProducer_force_run:
  assumes f: "ForceUpdate cfg"
    and run: "startProducer (tracedListers ls) cfg keep nrules lt ld prefix (tr, w) = (r, (tr', w'))"
  shows "\<exists>new. tr' = tr @ new \<and> (\<forall>c \<in> set new. \<not> listsDst c)"
proof (cases "Limit cfg = 1 \<and> nrules = 0")
  case False
  with run have "startProducerListing (tracedListers ls) cfg keep lt ld prefix (tr, w) = (r, (tr', w'))"
    by (auto simp: startProducer_def)
  from listing_force_run [OF f this] show ?thesis by (auto dest: asksDst_lists)
next
  case True
  obtain r1 tr1 w1 where p: "produceSingleObject (tracedListers ls) cfg keep prefix (tr, w) = (r1, (tr1, w1))"
    by (cases "produceSingleObject (tracedListers ls) cfg keep prefix (tr, w)") auto
  from produceSingleObject_run [OF p] obtain new1 where
    n1: "tr1 = tr @ new1" "\<forall>c \<in> set new1. \<not> listsDst c" by blast
  show ?thesis
  proof (cases r1)
    case (Inr x)
    with run True p have "tr' = tr1" by (simp add: startProducer_def)
    with n1 show ?thesis by blast
  next
    case (Inl err)
    with run True p have "startProducerListing (tracedListers ls) cfg keep lt ld prefix (tr1, w1) = (r, (tr', w'))"
      by (simp add: startProducer_def)
    from listing_force_run [OF f this] obtain new2 where
      "tr' = tr1 @ new2" "\<forall>c \<in> set new2. \<not> asksDst c" by blast
    with n1 show ?thesis by (intro exI [of _ "new1 @ new2"]) (auto dest: asksDst_lists)
  qed
qed

lemma produceFromListKey_force_run:
  assumes f: "ForceUpdate cfg"
    and run: "produceFromListKey (tracedListers ls) cfg keep nrules lt ld key (tr, w) = (r, (tr', w'))"
  shows "\<exists>new. tr' = tr @ new \<and> (\<forall>c \<in> set new. \<not> listsDst c)"
proof (cases "hasSuffix key ''/''")
  case True
  with run have "startProducer (tracedListers ls) cfg keep nrules lt ld key (tr, w) = (r, (tr', w'))"
    by (simp add: produceFromListKey_def)
  from startProducer_force_run [OF f this] show ?thesis .
next
  case False
  obtain r1 tr1 w1 where p: "produceSingleObject (tracedListers ls) cfg keep key (tr, w) = (r1, (tr1, w1))"
    by (cases "produceSingleObject (tracedListers ls) cfg keep key (tr, w)") auto
  from produceSingleObject_run [OF p] obtain new1 where
    n1: "tr1 = tr @ new1" "\<forall>c \<in> set new1. \<not> listsDst c" by blast
  show ?thesis
  proof (cases r1)
    case (Inr x)
    with run False p have "tr' = tr1" by (simp add: produceFromListKey_def)
    with n1 show ?thesis by blast
  next
    case (Inl err)
    with run False p have "startProducer (tracedListers ls) cfg keep nrules lt ld
        (if err = ignoreDir then key @ ''/'' else key) (tr1, w1) = (r, (tr', w'))"
      by (simp add: produceFromListKey_def)
    from startProducer_force_run [OF f this] obtain new2 where
      "tr' = tr1 @ new2" "\<forall>c \<in> set new2. \<not> listsDst c" by blast
    with n1 show ?thesis by (intro exI [of _ "new1 @ new2"]) auto
  qed
qed

lemma produceSingleObject_found:
  assumes "StoreHead ls SrcStore key w = (Inr obj, w1)"
    and "\<not> IsDir obj \<or> IsSymlink obj \<and> Links cfg \<or> IsDir obj \<and> Dirs cfg \<and> hasSuffix key ''/''"
    and "StoreHead ls DstStore key w1 = (Inr d, w2)"
  shows "produceSingleObject (tracedListers ls) cfg keep key ([], w) =
     (Inr (produce cfg keep [Some obj] [Some d]),
      ([LHead SrcStore key (Inr obj), LHead DstStore key (Inr d)], w2))"
  using assms by (simp add: produceSingleObject_def tracedListers_def record_lcall_def)

text \<open>
  C10 (amended). When \<open>ForceUpdate\<close> is set, no producer lists the destination store.
  \<open>startSingleProducer\<close> calls \<open>ListAll\<close> on the source only and runs the merger on the
  stream it returned and an empty destination stream. \<open>startProducer\<close> and the worker of
  \<open>produceFromList\<close> make no listing call on the destination; when \<open>startProducer\<close> does not
  take the single-object path (\<open>Limit\<close> is not 1, or there are rules) it does not \<open>Head\<close>
  the destination either, and what it did is the merger's run on a source listing it was
  returned and an empty destination stream. On an empty destination stream every event of
  the merger is the decision of a source object against no destination object (skip when
  \<open>Existing\<close> is set, otherwise copy); none is an extra count, a stashed destination
  directory or a \<open>DELETE_DST\<close> task, whatever \<open>DeleteDst\<close> is. The single-object path is
  excepted: \<open>produceSingleObject\<close> does not test \<open>ForceUpdate\<close>; it \<open>Head\<close>s the key in the
  destination, and the merger decides the source object against the object found there.
\<close>

theorem force_update_skips_destination:
  assumes "ForceUpdate cfg"
  shows "(startSingleProducer (tracedListers ls) cfg keep prefix ([], w) = (r, (tr, w')) \<longrightarrow>
        (\<exists>res. tr = [LListAll SrcStore prefix res] \<and>
           r = (case res of
                  Inl err \<Rightarrow> Inl (errorf (''list '' @ StoreName ls SrcStore @ '': '' @ msg err))
                | Inr srckeys \<Rightarrow> Inr (produce cfg keep srckeys [])))) \<and>
     (startProducer (tracedListers ls) cfg keep nrules lt ld prefix ([], w) = (r, (tr, w')) \<longrightarrow>
        (\<forall>c \<in> set tr. \<not> listsDst c) \<and>
        (\<not> (Limit cfg = 1 \<and> nrules = 0) \<longrightarrow>
           (\<forall>c \<in> set tr. \<not> asksDst c) \<and>
           (\<forall>evs out. r = Inr (evs, out) \<longrightarrow>
              (\<exists>c \<in> set tr. \<exists>srckeys. sourceListing c = Some srckeys \<and>
                 (evs, out) = produce cfg keep srckeys [])))) \<and>
     (produceFromListKey (tracedListers ls) cfg keep nrules lt ld prefix ([], w) = (r, (tr, w')) \<longrightarrow>
        (\<forall>c \<in> set tr. \<not> listsDst c)) \<and>
     (\<forall>srckeys evs out. produce cfg keep srckeys [] = (evs, out) \<longrightarrow>
        (\<forall>e \<in> set evs. \<not> fromDst e \<and>
           (\<exists>obj. Some obj \<in> set srckeys \<and> e = tableAction cfg obj None \<and>
              e = (if Existing cfg then SkipIt obj else Send (Plain obj))))) \<and>
     (\<forall>obj d w1 w2. StoreHead ls SrcStore prefix w = (Inr obj, w1) \<and>
        (\<not> IsDir obj \<or> IsSymlink obj \<and> Links cfg \<or> IsDir obj \<and> Dirs cfg \<and> hasSuffix prefix ''/'') \<and>
        StoreHead ls DstStore prefix w1 = (Inr d, w2) \<longrightarrow>
        produceSingleObject (tracedListers ls) cfg keep prefix ([], w) =
          (Inr (produce cfg keep [Some obj] [Some d]),
           ([LHead SrcStore prefix (Inr obj), LHead DstStore prefix (Inr d)], w2)))"
proof -
  have 1: "startSingleProducer (tracedListers ls) cfg keep prefix ([], w) = (r, (tr, w')) \<longrightarrow>
        (\<exists>res. tr = [LListAll SrcStore prefix res] \<and>
           r = (case res of
                  Inl err \<Rightarrow> Inl (errorf (''list '' @ StoreName ls SrcStore @ '': '' @ msg err))
                | Inr srckeys \<Rightarrow> Inr (produce cfg keep srckeys [])))"
    using single_force_run [OF assms, of ls keep prefix "[]" w r tr w'] by simp
  have 2: "startProducer (tracedListers ls) cfg keep nrules lt ld prefix ([], w) = (r, (tr, w')) \<longrightarrow>
        (\<forall>c \<in> set tr. \<not> listsDst c) \<and>
        (\<not> (Limit cfg = 1 \<and> nrules = 0) \<longrightarrow>
           (\<forall>c \<in> set tr. \<not> asksDst c) \<and>
           (\<forall>evs out. r = Inr (evs, out) \<longrightarrow>
              (\<exists>c \<in> set tr. \<exists>srckeys. sourceListing c = Some srckeys \<and>
                 (evs, out) = produce cfg keep srckeys [])))"
  proof (intro impI conjI)
    assume run: "startProducer (tracedListers ls) cfg keep nrules lt ld prefix ([], w) = (r, (tr, w'))"
    from startProducer_force_run [OF assms run] show "\<forall>c \<in> set tr. \<not> listsDst c" by simp
    assume "\<not> (Limit cfg = 1 \<and> nrules = 0)"
    with run have "startProducerListing (tracedListers ls) cfg keep lt ld prefix ([], w) = (r, (tr, w'))"
      by (auto simp: startProducer_def)
    from listing_force_run [OF assms this]
    show "\<forall>c \<in> set tr. \<not> asksDst c"
      and "\<forall>evs out. r = Inr (evs, out) \<longrightarrow>
              (\<exists>c \<in> set tr. \<exists>srckeys. sourceListing c = Some srckeys \<and>
                 (evs, out) = produce cfg keep srckeys [])"
      by simp_all
  qed
  have 3: "produceFromListKey (tracedListers ls) cfg keep nrules lt ld prefix ([], w) = (r, (tr, w')) \<longrightarrow>
        (\<forall>c \<in> set tr. \<not> listsDst c)"
    using produceFromListKey_force_run [OF assms, of ls keep nrules lt ld prefix "[]" w r tr w'] by simp
  have 4: "\<forall>srckeys evs out. produce cfg keep srckeys [] = (evs, out) \<longrightarrow>
        (\<forall>e \<in> set evs. \<not> fromDst e \<and>
           (\<exists>obj. Some obj \<in> set srckeys \<and> e = tableAction cfg obj None \<and>
              e = (if Existing cfg then SkipIt obj else Send (Plain obj))))"
    using produce_no_dst [of cfg keep] by (fastforce simp: tableAction_def)
  have 5: "\<forall>obj d w1 w2. StoreHead ls SrcStore prefix w = (Inr obj, w1) \<and>
        (\<not> IsDir obj \<or> IsSymlink obj \<and> Links cfg \<or> IsDir obj \<and> Dirs cfg \<and> hasSuffix prefix ''/'') \<and>
        StoreHead ls DstStore prefix w1 = (Inr d, w2) \<longrightarrow>
        produceSingleObject (tracedListers ls) cfg keep prefix ([], w) =
          (Inr (produce cfg keep [Some obj] [Some d]),
           ([LHead SrcStore prefix (Inr obj), LHead DstStore prefix (Inr d)], w2))"
    using produceSingleObject_found [of ls prefix w _ _ cfg] by blast
  from 1 2 3 4 5 show ?thesis by (intro conjI)
qed

theorem force_update_skips_destination_witness:
  "ForceUpdate (plainConfig\<lparr>ForceUpdate := True, DeleteDst := True\<rparr>) \<and>
   startSingleProducer (tracedListers (listedStores twoStores))
       (plainConfig\<lparr>ForceUpdate := True, DeleteDst := True\<rparr>) (\<lambda>x. True) [] ([], ())
     = (Inr ([Send (Plain (fileObj ''a'' 1 0)), Send (Plain (fileObj ''b'' 2 0))], ReturnNil),
        ([LListAll SrcStore [] (Inr [Some (fileObj ''a'' 1 0), Some (fileObj ''b'' 2 0)])], ())) \<and>
   startProducer (tracedListers (listedStores twoStores))
       (plainConfig\<lparr>ForceUpdate := True, DeleteDst := True\<rparr>) (\<lambda>x. True) 0 4 2 [] ([], ())
     = (Inr ([Send (Plain (fileObj ''a'' 1 0)), Send (Plain (fileObj ''b'' 2 0))], ReturnNil),
        ([LListCommonPrefix SrcStore [] (Inr [fileObj ''a'' 1 0, fileObj ''b'' 2 0])], ())) \<and>
   list_all (\<lambda>c. \<not> asksDst c) [LListCommonPrefix SrcStore [] (Inr [fileObj ''a'' 1 0, fileObj ''b'' 2 0])]"
proof -
  let ?cfg = "plainConfig\<lparr>ForceUpdate := True, DeleteDst := True\<rparr>"
  have f: "ForceUpdate ?cfg" by simp
  have s: "startSingleProducer (tracedListers (listedStores twoStores)) ?cfg (\<lambda>x. True) [] ([], ())
     = (Inr ([Send (Plain (fileObj ''a'' 1 0)), Send (Plain (fileObj ''b'' 2 0))], ReturnNil),
        ([LListAll SrcStore [] (Inr [Some (fileObj ''a'' 1 0), Some (fileObj ''b'' 2 0)])], ()))"
    by (simp add: startSingleProducer_def tracedListers_def listedStores_def twoStores_def
        record_lcall_def produce_eval)
  have p: "startProducer (tracedListers (listedStores twoStores)) ?cfg (\<lambda>x. True) 0 4 2 [] ([], ())
     = (Inr ([Send (Plain (fileObj ''a'' 1 0)), Send (Plain (fileObj ''b'' 2 0))], ReturnNil),
        ([LListCommonPrefix SrcStore [] (Inr [fileObj ''a'' 1 0, fileObj ''b'' 2 0])], ()))"
    by (simp add: startProducer_def startProducerListing_def tracedListers_def listedStores_def
        twoStores_def record_lcall_def produce_eval)
  have nl: "\<not> (Limit ?cfg = 1 \<and> (0::nat) = 0)" by (simp add: plainConfig_def)
  from force_update_skips_destination [OF f, of "listedStores twoStores" "\<lambda>x. True" "[]" "()" _ _ _ 0 4 2,
      THEN conjunct2, THEN conjunct1, rule_format, OF p, THEN conjunct2, rule_format, OF nl, THEN conjunct1]
  have "list_all (\<lambda>c. \<not> asksDst c) [LListCommonPrefix SrcStore [] (Inr [fileObj ''a'' 1 0, fileObj ''b'' 2 0])]"
    by simp
  with f s p show ?thesis by (intro conjI)
qed

text \<open>
  The claim as stated fails on the single-object path. With \<open>Limit = 1\<close> and no rules,
  \<open>startProducer\<close> \<open>Head\<close>s the key in both stores and gives the merger the destination
  object: under \<open>ForceUpdate\<close> and \<open>Existing\<close> the source object is copied, where the decision
  against no destination object is to skip it.
\<close>

theorem force_update_counterexample:
  "ForceUpdate (plainConfig\<lparr>Limit := 1, Existing := True, ForceUpdate := True\<rparr>) \<and>
   startProducer (tracedListers (listedStores twoStores))
       (plainConfig\<lparr>Limit := 1, Existing := True, ForceUpdate := True\<rparr>) (\<lambda>x. True) 0 1 0 ''a'' ([], ())
     = (Inr ([Send (Plain (fileObj ''a'' 1 0))], ReturnNil),
        ([LHead SrcStore ''a'' (Inr (fileObj ''a'' 1 0)), LHead DstStore ''a'' (Inr (fileObj ''a'' 3 0))], ())) \<and>
   tableAction (plainConfig\<lparr>Limit := 1, Existing := True, ForceUpdate := True\<rparr>) (fileObj ''a'' 1 0) None
     = SkipIt (fileObj ''a'' 1 0)"
  by (simp add: startProducer_def produceSingleObject_def tracedListers_def listedStores_def
      twoStores_def record_lcall_def produce_eval tableAction_def)

subsection \<open>C9: deferred directory deletions\<close>

lemma delayLoop_fold:
  "n \<le> length keys \<Longrightarrow>
   delayLoop del dry keys n st = foldl (\<lambda>st k. deleteObj del k dry st) st (rev (take n keys))"
proof (induction n arbitrary: st)
  case 0
  show ?case by simp
next
  case (Suc n)
  then have "take (Suc n) keys = take n keys @ [keys ! n]"
    by (simp add: take_Suc_conv_app_nth)
  with Suc show ?case by simp
qed

lemma delayDelFunc_fold:
  "delayDelFunc del dry keys st = foldl (\<lambda>st k. deleteObj del k dry st) st (rev (sort keys))"
  by (cases "keys = []") (simp_all add: delayDelFunc_def delayLoop_fold Let_def)

lemma child_key_greater: "suffix \<noteq> [] \<Longrightarrow> (k :: string) < k @ suffix"
  unfolding list_less_def by (cases suffix) (auto intro: lexord_append_rightI)

lemma before_desc:
  assumes "sorted_wrt (>) (L :: string list)" and "x \<in> set L" and "y \<in> set L" and "y < x"
  shows "before x y L"
proof -
  from assms(2) obtain as rest where L: "L = as @ x # rest" by (auto dest: split_list)
  have "y \<notin> set as"
  proof
    assume "y \<in> set as"
    with assms(1) L have "x < y" by (auto simp: sorted_wrt_append)
    with assms(4) show False by simp
  qed
  with assms(3,4) L have "y \<in> set rest" by auto
  then obtain bs cs where "rest = bs @ y # cs" by (auto dest: split_list)
  with L show ?thesis unfolding before_def by blast
qed

lemma deleteObj_recording:
  "deleteObj recordingDelete k False (calls, b) = (calls @ [k], b\<lparr>deleted := deleted b + 1\<rparr>)"
  by (simp add: deleteObj_def tryN_def tryLoop.simps recordingDelete_def shouldRetry_def)

lemma fold_recording:
  "foldl (\<lambda>st k. deleteObj recordingDelete k False st) (calls, b) ks =
     (calls @ ks, b\<lparr>deleted := deleted b + int (length ks)\<rparr>)"
  by (induction ks arbitrary: calls b) (simp_all add: deleteObj_recording)

lemma sorted_desc: "distinct keys \<Longrightarrow> sorted_wrt (>) (rev (sort (keys :: string list)))"
proof -
  assume "distinct keys"
  then have "sorted_wrt (<) (sort keys)" by (simp add: strict_sorted_iff)
  then show ?thesis by (simp add: sorted_wrt_rev)
qed

text \<open>
  C9. \<open>delayDelFunc\<close> calls \<open>deleteObj\<close> once for every deferred key, on the keys sorted and
  taken from the last to the first: for a set of keys (no key twice) in strictly descending
  lexicographic order, so that a key that extends another one (a child \<open>k @ suffix\<close> of the
  directory \<open>k\<close>) is deleted before it. On a store that records its \<open>Delete\<close> calls the
  recorded sequence is that order. In \<open>Sync\<close> the deferred deletions of both sides run on
  the state the workers left when all of them have returned, each side in that order.
\<close>

theorem deferred_deletions_descending:
  "delayDelFunc del dry keys st = foldl (\<lambda>st k. deleteObj del k dry st) st (rev (sort keys)) \<and>
   mset (rev (sort keys)) = mset keys \<and>
   (distinct keys \<longrightarrow> sorted_wrt (>) (rev (sort keys))) \<and>
   (distinct keys \<longrightarrow> (\<forall>k suffix. suffix \<noteq> [] \<and> k \<in> set keys \<and> k @ suffix \<in> set keys \<longrightarrow>
       before (k @ suffix) k (rev (sort keys)))) \<and>
   delayDelFunc recordingDelete False keys (calls, b) =
     (calls @ rev (sort keys), b\<lparr>deleted := deleted b + int (length keys)\<rparr>) \<and>
   syncDeferred [] False recordingDelete recordingDelete srcDelayDel dstDelayDel (srcCalls, dstCalls, b) =
     (srcCalls @ rev (sort srcDelayDel), dstCalls @ rev (sort dstDelayDel),
      b\<lparr>deleted := deleted b + int (length srcDelayDel) + int (length dstDelayDel)\<rparr>)"
proof -
  have 1: "delayDelFunc del dry keys st = foldl (\<lambda>st k. deleteObj del k dry st) st (rev (sort keys))"
    by (rule delayDelFunc_fold)
  have 3: "distinct keys \<longrightarrow> sorted_wrt (>) (rev (sort keys))" by (simp add: sorted_desc)
  have 4: "distinct keys \<longrightarrow> (\<forall>k suffix. suffix \<noteq> [] \<and> k \<in> set keys \<and> k @ suffix \<in> set keys \<longrightarrow>
       before (k @ suffix) k (rev (sort keys)))"
  proof (intro impI allI)
    fix k suffix
    assume d: "distinct keys" and h: "suffix \<noteq> [] \<and> k \<in> set keys \<and> k @ suffix \<in> set keys"
    show "before (k @ suffix) k (rev (sort keys))"
      using sorted_desc [OF d] h child_key_greater [of suffix k] by (intro before_desc) auto
  qed
  have 5: "delayDelFunc recordingDelete False keys (calls, b) =
     (calls @ rev (sort keys), b\<lparr>deleted := deleted b + int (length keys)\<rparr>)" for keys calls b
    by (simp add: delayDelFunc_fold fold_recording)
  have 6: "syncDeferred [] False recordingDelete recordingDelete srcDelayDel dstDelayDel (srcCalls, dstCalls, b) =
     (srcCalls @ rev (sort srcDelayDel), dstCalls @ rev (sort dstDelayDel),
      b\<lparr>deleted := deleted b + int (length srcDelayDel) + int (length dstDelayDel)\<rparr>)"
    by (simp add: syncDeferred_def 5)
  have 2: "mset (rev (sort keys)) = mset keys" by simp
  from 1 2 3 4 5 6 show ?thesis by blast
qed

theorem deferred_deletions_descending_witness:
  "distinct [''a/'', ''a/b/'', ''c/'', ''a/b/c/''] \<and>
   delayDelFunc recordingDelete False [''a/'', ''a/b/'', ''c/'', ''a/b/c/''] ([''x''], \<lparr>deleted = 0, failed = 0\<rparr>)
     = ([''x'', ''c/'', ''a/b/c/'', ''a/b/'', ''a/''], \<lparr>deleted = 4, failed = 0\<rparr>) \<and>
   before (''a/'' @ ''b/'') ''a/'' (rev (sort [''a/'', ''a/b/'', ''c/'', ''a/b/c/''])) \<and>
   sorted_wrt (>) (rev (sort [''a/'', ''a/b/'', ''c/'', ''a/b/c/'']))"
proof -
  let ?keys = "[''a/'', ''a/b/'', ''c/'', ''a/b/c/'']"
  note t = deferred_deletions_descending [where keys = ?keys
      and calls = "[''x'']" and b = "\<lparr>deleted = 0, failed = 0\<rparr>" and del = recordingDelete
      and dry = False and st = "([''x''], \<lparr>deleted = 0, failed = 0\<rparr>)"
      and srcDelayDel = "[]" and dstDelayDel = "[]" and srcCalls = "[]" and dstCalls = "[]"]
  have d: "distinct ?keys" by simp
  from t d have "\<forall>k suffix. suffix \<noteq> [] \<and> k \<in> set ?keys \<and> k @ suffix \<in> set ?keys \<longrightarrow>
       before (k @ suffix) k (rev (sort ?keys))" by blast
  then have "''b/'' \<noteq> [] \<and> ''a/'' \<in> set ?keys \<and> ''a/'' @ ''b/'' \<in> set ?keys \<longrightarrow>
       before (''a/'' @ ''b/'') ''a/'' (rev (sort ?keys))" by (elim allE)
  then have "before (''a/'' @ ''b/'') ''a/'' (rev (sort ?keys))" by simp
  moreover from t d have "sorted_wrt (>) (rev (sort ?keys))" by blast
  moreover have "delayDelFunc recordingDelete False ?keys ([''x''], \<lparr>deleted = 0, failed = 0\<rparr>)
     = ([''x'', ''c/'', ''a/b/c/'', ''a/b/'', ''a/''], \<lparr>deleted = 4, failed = 0\<rparr>)"
  proof -
    from t have "delayDelFunc recordingDelete False ?keys ([''x''], \<lparr>deleted = 0, failed = 0\<rparr>)
      = ([''x''] @ rev (sort ?keys),
         \<lparr>deleted = 0, failed = 0\<rparr>\<lparr>deleted := deleted \<lparr>deleted = 0, failed = 0\<rparr> + int (length ?keys)\<rparr>)"
      by blast
    also have "\<dots> = ([''x'', ''c/'', ''a/b/c/'', ''a/b/'', ''a/''], \<lparr>deleted = 4, failed = 0\<rparr>)"
      by simp
    finally show ?thesis .
  qed
  ultimately show ?thesis using d by blast
qed

subsection \<open>C4: the listing stream\<close>

lemma ascending_append_nil: "ascending b xs \<Longrightarrow> None \<notin> set xs \<Longrightarrow> ascending b (xs @ [None])"
  by (induction b xs rule: ascending.induct) auto

lemma emitPage_chain:
  assumes "emitPage e objs lastkey first = (out, lk, f, stop)"
    and "if stop then rest = [] else ascending (sentBound f lk) rest"
  shows "ascending (sentBound first lastkey) (out @ rest)"
  using assms
proof (induction objs arbitrary: lastkey first out)
  case Nil
  then show ?case by (auto split: if_splits)
next
  case (Cons obj objs)
  show ?case
  proof (cases "\<not> first \<and> Key obj \<le> lastkey")
    case True
    with Cons.prems show ?thesis by auto
  next
    case inorder: False
    show ?thesis
    proof (cases "e \<noteq> [] \<and> Key obj > e")
      case True
      with inorder Cons.prems show ?thesis by auto
    next
      case False
      obtain out' where r: "emitPage e objs (Key obj) False = (out', lk, f, stop)" and o: "out = Some obj # out'"
        using Cons.prems(1) inorder False by (auto split: prod.splits)
      from Cons.IH [OF r Cons.prems(2)] have "ascending (Some (Key obj)) (out' @ rest)"
        by (simp add: sentBound_def)
      with o inorder show ?thesis by (auto simp: sentBound_def)
    qed
  qed
qed

lemma pageLoop_ascending:
  assumes "pageLoop n store prefix e fl objs hasMore tok lastkey first w = ((out, closed), w')"
  shows "ascending (sentBound first lastkey) out"
  using assms
proof (induction n arbitrary: objs hasMore tok lastkey first w out closed w')
  case 0
  then show ?case by simp
next
  case (Suc n)
  obtain o1 lk f stop where ep: "emitPage e objs lastkey first = (o1, lk, f, stop)"
    by (cases "emitPage e objs lastkey first") auto
  show ?case
  proof (cases "stop \<or> \<not> hasMore")
    case True
    with Suc.prems ep have "out = o1" by (auto split: if_splits)
    moreover have "ascending (sentBound first lastkey) (o1 @ [])"
      by (rule emitPage_chain [OF ep]) simp
    ultimately show ?thesis by simp
  next
    case False
    obtain r w1 where lr: "listRetry (List store prefix lk tok [] maxResults fl) w = (r, w1)"
      by (cases "listRetry (List store prefix lk tok [] maxResults fl) w") auto
    show ?thesis
    proof (cases r)
      case (Inl err)
      with Suc.prems ep False lr have "out = o1 @ [None]" by auto
      moreover have "ascending (sentBound first lastkey) (o1 @ [None])"
        by (rule emitPage_chain [OF ep]) (use False in simp)
      ultimately show ?thesis by simp
    next
      case (Inr p)
      obtain objs' hasMore' tok' where p: "p = (objs', hasMore', tok')" by (cases p) auto
      let ?objs = "if length objs' > 0 \<and> Key (hd objs') = lk then tl objs' else objs'"
      obtain out' c' w2 where rec: "pageLoop n store prefix e fl ?objs hasMore' tok' lk f w1 = ((out', c'), w2)"
        by (cases "pageLoop n store prefix e fl ?objs hasMore' tok' lk f w1") auto
      with Suc.prems ep False lr Inr p have "out = o1 @ out'" by auto
      moreover have "ascending (sentBound first lastkey) (o1 @ out')"
        by (rule emitPage_chain [OF ep]) (use False Suc.IH [OF rec] in simp)
      ultimately show ?thesis by simp
    qed
  qed
qed

lemma emitPage_out_of_order:
  assumes "ascending (sentBound first lastkey) (map Some pre)"
    and "\<forall>p \<in> set pre. \<not> (e \<noteq> [] \<and> Key p > e)"
    and "Key obj \<le> (if pre = [] then lastkey else Key (last pre))"
    and "pre = [] \<longrightarrow> \<not> first"
  shows "emitPage e (pre @ obj # post) lastkey first =
     (map Some pre @ [None], (if pre = [] then lastkey else Key (last pre)), False, True)"
  using assms
proof (induction pre arbitrary: lastkey first)
  case Nil
  then show ?case by simp
next
  case (Cons p pre)
  from Cons.prems(1) have inorder: "\<not> (\<not> first \<and> Key p \<le> lastkey)"
    and asc: "ascending (sentBound False (Key p)) (map Some pre)"
    by (auto simp: sentBound_def split: if_splits)
  from Cons.prems(2) have within: "\<not> (e \<noteq> [] \<and> Key p > e)" by auto
  have "emitPage e (pre @ obj # post) (Key p) False =
     (map Some pre @ [None], (if pre = [] then Key p else Key (last pre)), False, True)"
  proof (rule Cons.IH [OF asc])
    show "\<forall>p \<in> set pre. \<not> (e \<noteq> [] \<and> Key p > e)" using Cons.prems(2) by auto
    show "Key obj \<le> (if pre = [] then Key p else Key (last pre))"
      using Cons.prems(3) by (cases "pre = []") simp_all
    show "pre = [] \<longrightarrow> \<not> False" by simp
  qed
  with inorder within show ?case by (cases "pre = []") auto
qed

lemma okPages_append: "okPages (xs @ ys) = okPages xs @ okPages ys"
  by (induction xs rule: okPages.induct) simp_all

lemma okPages_fails: "\<forall>x \<in> set xs. isl x \<Longrightarrow> okPages xs = []"
  by (induction xs rule: okPages.induct) simp_all

lemma listAgain_logged:
  "listAgain k (logged call) (r0, (log0, w)) = (r, (log', w')) \<Longrightarrow>
     \<exists>more. log' = log0 @ more \<and> (\<forall>x \<in> set (butlast (r0 # more)). isl x) \<and> r = last (r0 # more)"
proof (induction k arbitrary: r0 log0 w)
  case 0
  then show ?case by simp
next
  case (Suc k)
  show ?case
  proof (cases r0)
    case (Inr p)
    with Suc.prems show ?thesis by simp
  next
    case (Inl err)
    obtain r1 w1 where c: "call w = (r1, w1)" by (cases "call w")
    with Suc.prems Inl have "listAgain k (logged call) (r1, (log0 @ [r1], w1)) = (r, (log', w'))"
      by (simp add: logged_def)
    from Suc.IH [OF this] obtain more where
      m: "log' = (log0 @ [r1]) @ more" "\<forall>x \<in> set (butlast (r1 # more)). isl x" "r = last (r1 # more)"
      by blast
    with Inl show ?thesis by (intro exI [of _ "r1 # more"]) auto
  qed
qed

lemma listRetry_logged:
  assumes "listRetry (logged call) (log, w) = (r, (log', w'))"
  shows "\<exists>new. log' = log @ new \<and> new \<noteq> [] \<and> last new = r \<and> okPages new = okPages [r]"
proof -
  obtain r0 w0 where c: "call w = (r0, w0)" by (cases "call w")
  with assms have "listAgain 3 (logged call) (r0, (log @ [r0], w0)) = (r, (log', w'))"
    by (simp add: listRetry_def logged_def)
  from listAgain_logged [OF this] obtain more where
    m: "log' = (log @ [r0]) @ more" "\<forall>x \<in> set (butlast (r0 # more)). isl x" "r = last (r0 # more)"
    by blast
  have "r0 # more = butlast (r0 # more) @ [r]" using m(3) by (metis append_butlast_last_id list.distinct(1))
  then have "okPages (r0 # more) = okPages (butlast (r0 # more)) @ okPages [r]"
    by (metis okPages_append)
  with okPages_fails [OF m(2)] have "okPages (r0 # more) = okPages [r]" by simp
  with m show ?thesis by (intro exI [of _ "r0 # more"]) auto
qed

lemma emitPage_append:
  "emitPage e (xs @ ys) lk f =
     (case emitPage e xs lk f of
        (o1, lk1, f1, stop) \<Rightarrow>
          if stop then (o1, lk1, f1, True)
          else (case emitPage e ys lk1 f1 of (o2, lk2, f2, stop2) \<Rightarrow> (o1 @ o2, lk2, f2, stop2)))"
proof (induction xs arbitrary: lk f)
  case Nil
  show ?case by (simp split: prod.splits)
next
  case (Cons x xs)
  show ?case
  proof (cases "\<not> f \<and> Key x \<le> lk")
    case True
    then show ?thesis by simp
  next
    case io: False
    show ?thesis
    proof (cases "e \<noteq> [] \<and> Key x > e")
      case True
      with io show ?thesis by simp
    next
      case False
      with io Cons.IH [of "Key x" False] show ?thesis
        by (auto split: prod.splits)
    qed
  qed
qed

lemma emitPage_through:
  "emitPage e xs lk f = (o1, lk1, f1, False) \<Longrightarrow>
     lk1 = (if xs = [] then lk else Key (last xs)) \<and> f1 = (f \<and> xs = [])"
proof (induction xs arbitrary: lk f o1)
  case Nil
  then show ?case by simp
next
  case (Cons x xs)
  from Cons.prems have a: "\<not> (\<not> f \<and> Key x \<le> lk)" "\<not> (e \<noteq> [] \<and> Key x > e)"
    by (auto split: if_splits)
  with Cons.prems obtain o2 where "emitPage e xs (Key x) False = (o2, lk1, f1, False)"
    by (auto split: prod.splits)
  from Cons.IH [OF this] show ?case by auto
qed

lemma emitPage_inPlace:
  assumes "ascending (sentBound first lastkey) (map Some objs)"
    and "\<forall>obj \<in> set objs. e = [] \<or> Key obj \<le> e"
  shows "emitPage e objs lastkey first =
     (map Some objs, (if objs = [] then lastkey else Key (last objs)), first \<and> objs = [], False)"
  using assms
proof (induction objs arbitrary: lastkey first)
  case Nil
  then show ?case by simp
next
  case (Cons p objs)
  from Cons.prems(1) have inorder: "\<not> (\<not> first \<and> Key p \<le> lastkey)"
    and asc: "ascending (sentBound False (Key p)) (map Some objs)"
    by (auto simp: sentBound_def split: if_splits)
  from Cons.prems(2) have within: "\<not> (e \<noteq> [] \<and> Key p > e)"
    and rest: "\<forall>obj \<in> set objs. e = [] \<or> Key obj \<le> e" by auto
  from Cons.IH [OF asc rest] inorder within show ?case by (cases "objs = []") auto
qed

lemma emitPage_beyond_end:
  assumes "ascending None (map Some pre)"
    and "\<forall>p \<in> set pre. e = [] \<or> Key p \<le> e"
    and "pre \<noteq> [] \<longrightarrow> Key (last pre) < Key obj"
    and "e \<noteq> []" and "e < Key obj"
  shows "emitPage e (pre @ obj # post) [] True =
     (map Some pre, (if pre = [] then [] else Key (last pre)), pre = [], True)"
proof -
  have "ascending (sentBound True []) (map Some pre)" using assms(1) by (simp add: sentBound_def)
  from emitPage_inPlace [OF this assms(2)] assms(3-5) show ?thesis
    by (cases "pre = []") (auto simp add: emitPage_append)
qed

lemma pageLoop_pages:
  "pageLoop n (recordingList store) prefix e fl objs hasMore tok lastkey first (log, w) =
      ((out, closed), (log', w')) \<Longrightarrow>
   \<exists>new. log' = log @ new \<and> closed = (length (okPages new) < n) \<and>
     (closed \<longrightarrow>
        out = fst (emitPage e (objs @ laterObjects (if objs = [] then lastkey else Key (last objs)) (okPages new))
                 lastkey first) @ (if lastFailed new then [None] else []) \<and>
        (snd (snd (snd (emitPage e (objs @ laterObjects (if objs = [] then lastkey else Key (last objs)) (okPages new))
                 lastkey first))) \<longrightarrow> \<not> lastFailed new))"
proof (induction n arbitrary: objs hasMore tok lastkey first log w out)
  case 0
  then show ?case by simp
next
  case (Suc n)
  obtain o1 lk f stop where ep: "emitPage e objs lastkey first = (o1, lk, f, stop)"
    by (cases "emitPage e objs lastkey first") auto
  show ?case
  proof (cases "stop \<or> \<not> hasMore")
    case True
    with Suc.prems ep have "out = o1" "log' = log" closed by (auto split: if_splits)
    with ep show ?thesis by (intro exI [of _ "[]"]) (simp add: lastFailed_def)
  next
    case False
    then have ns: "\<not> stop" and hm: hasMore by simp_all
    from ep ns have "emitPage e objs lastkey first = (o1, lk, f, False)" by simp
    from emitPage_through [OF this] have
      lk: "lk = (if objs = [] then lastkey else Key (last objs))" by simp
    obtain r s1 where lr0: "listRetry (List (recordingList store) prefix lk tok [] maxResults fl) (log, w) = (r, s1)"
      by (cases "listRetry (List (recordingList store) prefix lk tok [] maxResults fl) (log, w)") auto
    obtain log1 w1 where s1: "s1 = (log1, w1)" by (cases s1)
    have "List (recordingList store) prefix lk tok [] maxResults fl = logged (List store prefix lk tok [] maxResults fl)"
      by (simp add: recordingList_def)
    with lr0 s1 have "listRetry (logged (List store prefix lk tok [] maxResults fl)) (log, w) = (r, (log1, w1))"
      by simp
    from listRetry_logged [OF this] obtain new1 where
      n1: "log1 = log @ new1" "new1 \<noteq> []" "last new1 = r" "okPages new1 = okPages [r]" by blast
    show ?thesis
    proof (cases r)
      case (Inl err)
      with Suc.prems ep ns hm lr0 s1 have "out = o1 @ [None]" "log' = log1" closed by auto
      moreover have "lastFailed new1" using n1 Inl by (simp add: lastFailed_def)
      moreover have "okPages new1 = []" using n1 Inl by simp
      ultimately show ?thesis using ep n1 ns by (intro exI [of _ new1]) simp
    next
      case (Inr p)
      obtain objs' hasMore' tok' where p: "p = (objs', hasMore', tok')" by (cases p) auto
      define objs'' where "objs'' = (if length objs' > 0 \<and> Key (hd objs') = lk then tl objs' else objs')"
      obtain out' c' s2 where rec0: "pageLoop n (recordingList store) prefix e fl objs'' hasMore' tok' lk f (log1, w1) = ((out', c'), s2)"
        by (cases "pageLoop n (recordingList store) prefix e fl objs'' hasMore' tok' lk f (log1, w1)") auto
      from Suc.prems ep ns hm lr0 s1 Inr p rec0 have o: "out = o1 @ out'" and c: "c' = closed" and s: "s2 = (log', w')"
        by (auto simp: objs''_def)
      let ?rest = "\<lambda>new2. objs'' @ laterObjects (if objs'' = [] then lk else Key (last objs'')) (okPages new2)"
      from Suc.IH [OF rec0 [unfolded c s]] obtain new2 where
        n2: "log' = log1 @ new2" "closed = (length (okPages new2) < n)"
        "closed \<longrightarrow> out' = fst (emitPage e (?rest new2) lk f) @ (if lastFailed new2 then [None] else []) \<and>
           (snd (snd (snd (emitPage e (?rest new2) lk f))) \<longrightarrow> \<not> lastFailed new2)"
        by blast
      have okn: "okPages (new1 @ new2) = objs' # okPages new2"
        using n1(4) Inr p by (simp add: okPages_append)
      have lo: "laterObjects lk (okPages (new1 @ new2)) = ?rest new2"
        by (simp add: okn objs''_def Let_def)
      have "emitPage e (objs @ ?rest new2) lastkey first =
          (case emitPage e (?rest new2) lk f of (o2, lk2, f2, stop2) \<Rightarrow> (o1 @ o2, lk2, f2, stop2))"
        by (simp add: emitPage_append ep ns)
      then have em: "fst (emitPage e (objs @ ?rest new2) lastkey first) = o1 @ fst (emitPage e (?rest new2) lk f)"
        and st: "snd (snd (snd (emitPage e (objs @ ?rest new2) lastkey first))) =
                 snd (snd (snd (emitPage e (?rest new2) lk f)))"
        by (simp_all split: prod.splits)
      have lf: "lastFailed (new1 @ new2) = lastFailed new2"
        using n1(2,3) Inr by (cases "new2 = []") (simp_all add: lastFailed_def)
      have len: "closed = (length (okPages (new1 @ new2)) < Suc n)" using n2(2) okn by simp
      have "closed \<longrightarrow>
        out = fst (emitPage e (objs @ laterObjects lk (okPages (new1 @ new2))) lastkey first) @
                (if lastFailed (new1 @ new2) then [None] else []) \<and>
        (snd (snd (snd (emitPage e (objs @ laterObjects lk (okPages (new1 @ new2))) lastkey first))) \<longrightarrow>
           \<not> lastFailed (new1 @ new2))"
        unfolding lo lf em st using o n2(3) by simp
      with len n2(1) n1(1) lk show ?thesis by (intro exI [of _ "new1 @ new2"]) simp
    qed
  qed
qed

lemma startObject_recording:
  "startObject (recordingList store) prefix start (log, w) =
     (fst (startObject store prefix start w), (log, snd (startObject store prefix start w)))"
  by (simp add: startObject_def recordingList_def unlogged_def split: prod.splits sum.splits)

lemma startObject_found:
  "length (fst (startObject store prefix start w)) \<le> 1 \<and> None \<notin> set (fst (startObject store prefix start w))"
  by (simp add: startObject_def split: prod.splits sum.splits)

lemma ListAll_paged:
  assumes nostream: "\<forall>p s f w. \<exists>e w'. StreamAll store p s f w = (Inl e, w') \<and> errorsIs e (KErrno 95)"
    and paged: "\<forall>p m t d l f w e w'. List store p m t d l f w = (Inl e, w') \<longrightarrow> \<not> errorsIs e (KErrno 95)"
    and run: "ListAll fuel (recordingList store) lawd prefix start e followLink ([], w) =
                (Inr (stream, closed), (log, w'))"
  shows "\<exists>out. stream = fst (startObject store prefix start w) @ out \<and> ascending None out \<and>
     closed = (length (okPages log) \<le> fuel) \<and>
     (closed \<longrightarrow>
        out = fst (emitPage e (pageObjects (okPages log)) [] True) @ (if lastFailed log then [None] else []) \<and>
        (snd (snd (snd (emitPage e (pageObjects (okPages log)) [] True))) \<longrightarrow> \<not> lastFailed log))"
proof -
  define found where "found = fst (startObject store prefix start w)"
  define w1 where "w1 = snd (startObject store prefix start w)"
  have h: "startObject (recordingList store) prefix start ([], w) = (found, ([], w1))"
    by (simp add: startObject_recording found_def w1_def)
  from nostream obtain err w2 where s0: "StreamAll store prefix start followLink w1 = (Inl err, w2)"
    and en: "errorsIs err (KErrno 95)" by blast
  then have s: "StreamAll (recordingList store) prefix start followLink ([], w1) = (Inl err, ([], w2))"
    by (simp add: recordingList_def unlogged_def)
  obtain r w3 where l0: "List store prefix start [] [] maxResults followLink w2 = (r, w3)"
    by (cases "List store prefix start [] [] maxResults followLink w2") auto
  then have l: "List (recordingList store) prefix start [] [] maxResults followLink ([], w2) = (r, ([r], w3))"
    by (simp add: recordingList_def logged_def)
  show ?thesis
  proof (cases r)
    case (Inl e')
    with paged l0 have "\<not> errorsIs e' (KErrno 95)" by blast
    with run h s en l Inl show ?thesis
      unfolding ListAll_def by simp
  next
    case (Inr p)
    obtain objs hasMore tok where p: "p = (objs, hasMore, tok)" by (cases p) auto
    obtain out c s4 where pl0: "pageLoop fuel (recordingList store) prefix e followLink objs hasMore tok [] True ([r], w3) = ((out, c), s4)"
      by (cases "pageLoop fuel (recordingList store) prefix e followLink objs hasMore tok [] True ([r], w3)") auto
    from run h s en l Inr p pl0 have st: "stream = found @ out" and c: "c = closed" and s4: "s4 = (log, w')"
      unfolding ListAll_def by simp_all
    note pl = pl0 [unfolded c s4]
    from pageLoop_ascending [OF pl] have asc: "ascending None out" by (simp add: sentBound_def)
    from pageLoop_pages [OF pl] obtain new where
      n: "log = [r] @ new" "closed = (length (okPages new) < fuel)"
      "closed \<longrightarrow>
        out = fst (emitPage e (objs @ laterObjects (if objs = [] then [] else Key (last objs)) (okPages new))
                 [] True) @ (if lastFailed new then [None] else []) \<and>
        (snd (snd (snd (emitPage e (objs @ laterObjects (if objs = [] then [] else Key (last objs)) (okPages new))
                 [] True))) \<longrightarrow> \<not> lastFailed new)"
      by blast
    have ok: "okPages log = objs # okPages new" using n(1) Inr p by simp
    have lf: "lastFailed log = lastFailed new"
      using n(1) Inr by (cases "new = []") (simp_all add: lastFailed_def)
    have po: "pageObjects (okPages log) = objs @ laterObjects (if objs = [] then [] else Key (last objs)) (okPages new)"
      by (simp add: ok)
    have "closed = (length (okPages log) \<le> fuel)" using n(2) ok by auto
    with st asc n(3) show ?thesis unfolding po lf found_def by blast
  qed
qed

text \<open>
  C4 (amended). For a store that has no streaming list of its own (\<open>ListAll\<close> pages
  through \<open>List\<close>), the stream \<open>ListAll\<close> emits is the start object, if \<open>Head\<close> found it (its
  key is not compared), followed by what is taken from the pages, where the keys are
  strictly ascending with \<open>nil\<close> only as the last element. The stream is closed unless more
  pages were read than the bound on their number. The objects are read page by page, the
  first object of a later page being left out silently when its key equals the last key
  read before that page (the empty key when none was read). Of a closed stream, the part taken from the pages is: when an
  object has a key less than or equal to the key before it and everything before it is in
  place (strictly ascending, no key above a non-empty \<open>end\<close>), the objects before it and
  then \<open>nil\<close>; when an object has a key above a non-empty \<open>end\<close>, is not out of order and
  everything before it is in place, the objects before it, without \<open>nil\<close>; when all objects
  are in place, all of them, followed by \<open>nil\<close> exactly when the last call of \<open>List\<close> failed
  after its retries.
\<close>

theorem ListAll_pages_ascending:
  assumes "\<forall>p s f w. \<exists>e w'. StreamAll store p s f w = (Inl e, w') \<and> errorsIs e (KErrno 95)"
    and "\<forall>p m t d l f w e w'. List store p m t d l f w = (Inl e, w') \<longrightarrow> \<not> errorsIs e (KErrno 95)"
    and "ListAll fuel (recordingList store) lawd prefix start e followLink ([], w) =
           (Inr (stream, closed), (log, w'))"
  shows "\<exists>out. stream = fst (startObject store prefix start w) @ out \<and>
     length (fst (startObject store prefix start w)) \<le> 1 \<and>
     None \<notin> set (fst (startObject store prefix start w)) \<and>
     ascending None out \<and>
     closed = (length (okPages log) \<le> fuel) \<and>
     (closed \<longrightarrow>
        (\<forall>pre obj post.
           pageObjects (okPages log) = pre @ obj # post \<and> pre \<noteq> [] \<and> inPlace e pre \<and>
           Key obj \<le> Key (last pre) \<longrightarrow> out = map Some pre @ [None]) \<and>
        (\<forall>pre obj post.
           pageObjects (okPages log) = pre @ obj # post \<and> inPlace e pre \<and>
           (pre \<noteq> [] \<longrightarrow> Key (last pre) < Key obj) \<and> e \<noteq> [] \<and> e < Key obj \<longrightarrow>
           out = map Some pre) \<and>
        (inPlace e (pageObjects (okPages log)) \<longrightarrow>
           out = map Some (pageObjects (okPages log)) @ (if lastFailed log then [None] else [])))"
proof -
  let ?objs = "pageObjects (okPages log)"
  from ListAll_paged [OF assms] obtain out where
    o: "stream = fst (startObject store prefix start w) @ out" "ascending None out"
      "closed = (length (okPages log) \<le> fuel)"
      "closed \<longrightarrow> out = fst (emitPage e ?objs [] True) @ (if lastFailed log then [None] else []) \<and>
         (snd (snd (snd (emitPage e ?objs [] True))) \<longrightarrow> \<not> lastFailed log)"
    by blast
  have a: "out = map Some pre @ [None]"
    if closed "?objs = pre @ obj # post" "pre \<noteq> []" "inPlace e pre" "Key obj \<le> Key (last pre)"
    for pre obj post
  proof -
    have "emitPage e (pre @ obj # post) [] True =
       (map Some pre @ [None], (if pre = [] then [] else Key (last pre)), False, True)"
    proof (rule emitPage_out_of_order)
      show "ascending (sentBound True []) (map Some pre)" using that(4) by (simp add: inPlace_def sentBound_def)
      show "\<forall>p \<in> set pre. \<not> (e \<noteq> [] \<and> Key p > e)" using that(4) by (auto simp: inPlace_def)
      show "Key obj \<le> (if pre = [] then [] else Key (last pre))" using that(3,5) by simp
      show "pre = [] \<longrightarrow> \<not> True" using that(3) by simp
    qed
    with o(4) that(1,2) show ?thesis by simp
  qed
  have b: "out = map Some pre"
    if closed "?objs = pre @ obj # post" "inPlace e pre" "pre \<noteq> [] \<longrightarrow> Key (last pre) < Key obj"
      "e \<noteq> []" "e < Key obj"
    for pre obj post
  proof -
    have "emitPage e (pre @ obj # post) [] True =
       (map Some pre, (if pre = [] then [] else Key (last pre)), pre = [], True)"
      using that(3) by (intro emitPage_beyond_end that(4-6)) (simp_all add: inPlace_def)
    with o(4) that(1,2) show ?thesis by simp
  qed
  have c: "out = map Some ?objs @ (if lastFailed log then [None] else [])"
    if closed "inPlace e ?objs"
  proof -
    have "emitPage e ?objs [] True =
       (map Some ?objs, (if ?objs = [] then [] else Key (last ?objs)), True \<and> ?objs = [], False)"
      using that(2) by (intro emitPage_inPlace) (simp_all add: inPlace_def sentBound_def)
    with o(4) that(1) show ?thesis by simp
  qed
  from o(1-3) startObject_found [of store prefix start w] a b c show ?thesis by blast
qed

theorem ListAll_pages_ascending_witness:
  "ListAll 5 (recordingList (pagedStore [([fileObj ''a'' 1 0, fileObj ''b'' 1 0], True, ''t1''),
                                         ([fileObj ''b'' 1 0, fileObj ''c'' 1 0], False, [])]))
       (\<lambda>w. (Inl ENOTSUP, w)) [] [] [] True ([], 0)
     = (Inr ([Some (fileObj ''a'' 1 0), Some (fileObj ''b'' 1 0), Some (fileObj ''c'' 1 0)], True),
        ([Inr ([fileObj ''a'' 1 0, fileObj ''b'' 1 0], True, ''t1''),
          Inr ([fileObj ''b'' 1 0, fileObj ''c'' 1 0], False, [])], 2)) \<and>
   inPlace [] (pageObjects [[fileObj ''a'' 1 0, fileObj ''b'' 1 0], [fileObj ''b'' 1 0, fileObj ''c'' 1 0]]) \<and>
   (\<exists>out. [Some (fileObj ''a'' 1 0), Some (fileObj ''b'' 1 0), Some (fileObj ''c'' 1 0)] = [] @ out \<and>
      out = map Some [fileObj ''a'' 1 0, fileObj ''b'' 1 0, fileObj ''c'' 1 0]) \<and>
   ListAll 5 (recordingList (pagedStore [([fileObj ''a'' 1 0, fileObj ''c'' 1 0], True, ''t1''),
                                         ([fileObj ''b'' 1 0, fileObj ''d'' 1 0], True, ''t2'')]))
       (\<lambda>w. (Inl ENOTSUP, w)) [] [] [] True ([], 0)
     = (Inr ([Some (fileObj ''a'' 1 0), Some (fileObj ''c'' 1 0), None], True),
        ([Inr ([fileObj ''a'' 1 0, fileObj ''c'' 1 0], True, ''t1''),
          Inr ([fileObj ''b'' 1 0, fileObj ''d'' 1 0], True, ''t2'')], 2)) \<and>
   pageObjects [[fileObj ''a'' 1 0, fileObj ''c'' 1 0], [fileObj ''b'' 1 0, fileObj ''d'' 1 0]] =
     [fileObj ''a'' 1 0, fileObj ''c'' 1 0] @ fileObj ''b'' 1 0 # [fileObj ''d'' 1 0] \<and>
   inPlace [] [fileObj ''a'' 1 0, fileObj ''c'' 1 0] \<and>
   Key (fileObj ''b'' 1 0) \<le> Key (last [fileObj ''a'' 1 0, fileObj ''c'' 1 0]) \<and>
   (\<exists>out. [Some (fileObj ''a'' 1 0), Some (fileObj ''c'' 1 0), None] = [] @ out \<and>
      out = map Some [fileObj ''a'' 1 0, fileObj ''c'' 1 0] @ [None]) \<and>
   ListAll 5 (recordingList (pagedStore [([fileObj ''a'' 1 0, fileObj ''c'' 1 0, fileObj ''d'' 1 0], True, ''t1'')]))
       (\<lambda>w. (Inl ENOTSUP, w)) [] [] ''b'' True ([], 0)
     = (Inr ([Some (fileObj ''a'' 1 0)], True),
        ([Inr ([fileObj ''a'' 1 0, fileObj ''c'' 1 0, fileObj ''d'' 1 0], True, ''t1'')], 1)) \<and>
   inPlace ''b'' [fileObj ''a'' 1 0] \<and>
   Key (last [fileObj ''a'' 1 0]) < Key (fileObj ''c'' 1 0) \<and> ''b'' < Key (fileObj ''c'' 1 0) \<and>
   (\<exists>out. [Some (fileObj ''a'' 1 0)] = [] @ out \<and> out = map Some [fileObj ''a'' 1 0]) \<and>
   ListAll 5 (recordingList (pagedStore [([fileObj ''a'' 1 0], True, ''t1'')]))
       (\<lambda>w. (Inl ENOTSUP, w)) [] [] [] True ([], 0)
     = (Inr ([Some (fileObj ''a'' 1 0), None], True),
        ([Inr ([fileObj ''a'' 1 0], True, ''t1''), Inl (errorf ''EOF''), Inl (errorf ''EOF''),
          Inl (errorf ''EOF''), Inl (errorf ''EOF'')], 5)) \<and>
   lastFailed [Inr ([fileObj ''a'' 1 0], True, ''t1''), Inl (errorf ''EOF''), Inl (errorf ''EOF''),
          Inl (errorf ''EOF''), Inl (errorf ''EOF'')] \<and>
   (\<exists>out. [Some (fileObj ''a'' 1 0), None] = [] @ out \<and> out = map Some [fileObj ''a'' 1 0] @ [None])"
proof -
  let ?a = "fileObj ''a'' 1 0" and ?b = "fileObj ''b'' 1 0" and ?c = "fileObj ''c'' 1 0"
    and ?d = "fileObj ''d'' 1 0"
  let ?P = "[([?a, ?b], True, ''t1''), ([?b, ?c], False, [])]"
  let ?Q = "[([?a, ?c], True, ''t1''), ([?b, ?d], True, ''t2'')]"
  let ?E = "[([?a, ?c, ?d], True, ''t1'')]"
  let ?F = "[([?a], True, ''t1'')]"
  let ?flog = "[Inr ([?a], True, ''t1''), Inl (errorf ''EOF''), Inl (errorf ''EOF''),
          Inl (errorf ''EOF''), Inl (errorf ''EOF'')] :: (goerr + page) list"
  let ?lawd = "\<lambda>w :: (goerr + page) list \<times> nat. (Inl ENOTSUP :: goerr + object option list \<times> bool, w)"
  have stream: "\<forall>p s f w. \<exists>e w'. StreamAll (pagedStore pages) p s f w = (Inl e, w') \<and> errorsIs e (KErrno 95)"
    for pages
    by (simp add: pagedStore_def ENOTSUP_def errorsIs_def)
  have paged: "\<forall>p m t d l f w e w'. List (pagedStore pages) p m t d l f w = (Inl e, w') \<longrightarrow>
      \<not> errorsIs e (KErrno 95)" for pages
    by (auto simp add: pagedStore_def errorf_def errorsIs_def split: if_splits)
  have start: "fst (startObject (pagedStore pages) [] [] (0 :: nat)) = []" for pages
    by (simp add: startObject_def)
  have run1: "ListAll 5 (recordingList (pagedStore ?P)) ?lawd [] [] [] True ([], 0)
      = (Inr ([Some ?a, Some ?b, Some ?c], True), ([Inr ([?a, ?b], True, ''t1''), Inr ([?b, ?c], False, [])], 2))"
    by (simp add: ListAll_def startObject_def recordingList_def logged_def unlogged_def pagedStore_def
        ENOTSUP_def errorsIs_def listRetry_def fileObj_def maxResults_def eval_nat_numeral)
  have run2: "ListAll 5 (recordingList (pagedStore ?Q)) ?lawd [] [] [] True ([], 0)
      = (Inr ([Some ?a, Some ?c, None], True), ([Inr ([?a, ?c], True, ''t1''), Inr ([?b, ?d], True, ''t2'')], 2))"
    by (simp add: ListAll_def startObject_def recordingList_def logged_def unlogged_def pagedStore_def
        ENOTSUP_def errorsIs_def listRetry_def fileObj_def maxResults_def eval_nat_numeral)
  have run3: "ListAll 5 (recordingList (pagedStore ?E)) ?lawd [] [] ''b'' True ([], 0)
      = (Inr ([Some ?a], True), ([Inr ([?a, ?c, ?d], True, ''t1'')], 1))"
    by (simp add: ListAll_def startObject_def recordingList_def logged_def unlogged_def pagedStore_def
        ENOTSUP_def errorsIs_def listRetry_def fileObj_def maxResults_def eval_nat_numeral)
  have run4: "ListAll 5 (recordingList (pagedStore ?F)) ?lawd [] [] [] True ([], 0)
      = (Inr ([Some ?a, None], True), (?flog, 5))"
    by (simp add: ListAll_def startObject_def recordingList_def logged_def unlogged_def pagedStore_def
        ENOTSUP_def errorsIs_def listRetry_def fileObj_def maxResults_def eval_nat_numeral)
  have in1: "inPlace [] (pageObjects [[?a, ?b], [?b, ?c]])"
    by (simp add: inPlace_def fileObj_def)
  have po2: "pageObjects [[?a, ?c], [?b, ?d]] = [?a, ?c] @ ?b # [?d]"
    by (simp add: fileObj_def)
  have in2: "inPlace [] [?a, ?c]" by (simp add: inPlace_def fileObj_def)
  have le2: "Key ?b \<le> Key (last [?a, ?c])" by (simp add: fileObj_def)
  have in3: "inPlace ''b'' [?a]" by (simp add: inPlace_def fileObj_def)
  have lt3: "Key (last [?a]) < Key ?c" "''b'' < Key ?c" by (simp_all add: fileObj_def)
  have lf4: "lastFailed ?flog" by (simp add: lastFailed_def)
  have in4: "inPlace [] (pageObjects (okPages ?flog))" by (simp add: inPlace_def fileObj_def)
  from ListAll_pages_ascending [OF stream paged run1] in1
  have o1: "\<exists>out. [Some ?a, Some ?b, Some ?c] = [] @ out \<and> out = map Some [?a, ?b, ?c]"
    by (simp add: start lastFailed_def fileObj_def)
  from ListAll_pages_ascending [OF stream paged run2]
  obtain out where o: "[Some ?a, Some ?c, None] = fst (startObject (pagedStore ?Q) [] [] 0) @ out"
    and imp: "\<forall>pre obj post.
           pageObjects (okPages [Inr ([?a, ?c], True, ''t1''), Inr ([?b, ?d], True, ''t2'')]) = pre @ obj # post \<and>
           pre \<noteq> [] \<and> inPlace [] pre \<and> Key obj \<le> Key (last pre) \<longrightarrow> out = map Some pre @ [None]"
    by blast
  have "pageObjects (okPages [Inr ([?a, ?c], True, ''t1''), Inr ([?b, ?d], True, ''t2'')]) = [?a, ?c] @ ?b # [?d]"
    using po2 by simp
  with imp in2 le2 have "out = map Some [?a, ?c] @ [None]" by blast
  with o have o2: "\<exists>out. [Some ?a, Some ?c, None] = [] @ out \<and> out = map Some [?a, ?c] @ [None]"
    by (simp add: start)
  from ListAll_pages_ascending [OF stream paged run3]
  obtain out3 where o': "[Some ?a] = fst (startObject (pagedStore ?E) [] [] 0) @ out3"
    and imp3: "\<forall>pre obj post.
           pageObjects (okPages [Inr ([?a, ?c, ?d], True, ''t1'')]) = pre @ obj # post \<and> inPlace ''b'' pre \<and>
           (pre \<noteq> [] \<longrightarrow> Key (last pre) < Key obj) \<and> ''b'' \<noteq> [] \<and> ''b'' < Key obj \<longrightarrow>
           out3 = map Some pre"
    by blast
  have "pageObjects (okPages [Inr ([?a, ?c, ?d], True, ''t1'')]) = [?a] @ ?c # [?d]" by simp
  with imp3 in3 lt3 have "out3 = map Some [?a]" by blast
  with o' have o3: "\<exists>out. [Some ?a] = [] @ out \<and> out = map Some [?a]"
    by (simp add: start)
  from ListAll_pages_ascending [OF stream paged run4]
  obtain out4 where o'': "[Some ?a, None] = fst (startObject (pagedStore ?F) [] [] 0) @ out4"
    and imp4: "inPlace [] (pageObjects (okPages ?flog)) \<longrightarrow>
           out4 = map Some (pageObjects (okPages ?flog)) @ (if lastFailed ?flog then [None] else [])"
    by blast
  from imp4 in4 lf4 have "out4 = map Some [?a] @ [None]" by simp
  with o'' have o4: "\<exists>out. [Some ?a, None] = [] @ out \<and> out = map Some [?a] @ [None]"
    by (simp add: start)
  from run1 in1 o1 run2 po2 in2 le2 o2 run3 in3 lt3 o3 run4 lf4 o4 show ?thesis by (intro conjI)
qed

text \<open>
  The claim as stated fails for a store with a streaming list of its own: its objects are
  passed on without a comparison, so a stream that delivers \<open>b\<close> before \<open>a\<close> is emitted as
  it is, with no \<open>nil\<close>.
\<close>

theorem ListAll_ascending_counterexample:
  "ListAll 1 streamingStore (\<lambda>w. (Inl ENOTSUP, w)) [] [] [] True 0
     = (Inr ([Some (fileObj ''b'' 1 0), Some (fileObj ''a'' 1 0)], True), 0) \<and>
   \<not> ascending None [Some (fileObj ''b'' 1 0), Some (fileObj ''a'' 1 0)] \<and>
   None \<notin> set [Some (fileObj ''b'' 1 0), Some (fileObj ''a'' 1 0)]"
  by (simp add: ListAll_def startObject_def streamingStore_def fileObj_def)

text \<open>
  On the paged path a key equal to the last key sent is not always fatal either: the first
  object of a later page is left out when its key is the marker, so the pages \<open>a, b\<close> and
  \<open>b, c\<close> are emitted as \<open>a, b, c\<close> with no \<open>nil\<close>.
\<close>

lemma ListAll_marker_elided:
  "fst (ListAll 5 (pagedStore [([fileObj ''a'' 1 0, fileObj ''b'' 1 0], True, ''t1''),
                               ([fileObj ''b'' 1 0, fileObj ''c'' 1 0], False, [])])
       (\<lambda>w. (Inl ENOTSUP, w)) [] [] [] True 0)
     = Inr ([Some (fileObj ''a'' 1 0), Some (fileObj ''b'' 1 0), Some (fileObj ''c'' 1 0)], True)"
  by (simp add: ListAll_def startObject_def pagedStore_def ENOTSUP_def errorsIs_def listRetry_def
      fileObj_def maxResults_def eval_nat_numeral)

lemma readLoop_enough:
  assumes "n \<le> length (concat cs)"
  shows "\<exists>chk' cs'. readLoop crc cal cs f n got chk = ((Inr (got @ take n (concat cs)), chk'), Reader cs' f) \<and>
           concat cs' = drop n (concat cs)"
  using assms
proof (induction crc cal cs f n got chk rule: readLoop.induct)
  case (1 crc cal cs f got chksum)
  show ?case by simp
next
  case (2 crc cal f m got chksum)
  then show ?case by simp
next
  case (3 crc cal c cs f m got chksum)
  show ?case
  proof (cases "Suc m < length c")
    case True
    then show ?thesis by simp
  next
    case False
    then have "Suc m - length c \<le> length (concat cs)" using "3.prems" by simp
    from "3.IH" [OF False this] False show ?thesis by auto
  qed
qed














subsection \<open>C7: how a part of a multipart copy is transferred\<close>

declare digits.simps [simp del]

lemma reliable_get:
  "reliable ops \<Longrightarrow> \<exists>r w'. SrcGet ops key off len w = (Inr r, w') \<and> nat len \<le> length (pending r)"
  unfolding reliable_def by (elim conjE) (erule allE)+

lemma reliable_create:
  "reliable ops \<Longrightarrow> \<exists>up w'. CreateMultipartUpload ops key w = (Inr up, w') \<and> 1 \<le> MaxCount up \<and>
        0 \<le> MinPartSize up \<and> MinPartSize up \<le> 2 ^ 32 \<and> minPart up * MaxCount up < 2 ^ 63"
  unfolding reliable_def by (elim conjE) (erule allE)+

lemma reliable_upload:
  "reliable ops \<Longrightarrow> snd (fst (UploadPart ops key uploadID num data w)) = None"
  unfolding reliable_def by (elim conjE) (erule allE)+

lemma reliable_copy:
  "reliable ops \<Longrightarrow> snd (fst (UploadPartCopy ops key uploadID num srckey off sz w)) = None"
  unfolding reliable_def by (elim conjE) (erule allE)+

lemma reliable_complete:
  "reliable ops \<Longrightarrow> fst (CompleteUpload ops key uploadID parts w) = None"
  unfolding reliable_def by (elim conjE) (erule allE)+

lemma tryN_first: "f s = (None, s') \<Longrightarrow> tryN 3 f s = (None, s', [])"
  by (simp add: tryN_def tryLoop.simps [of 0] shouldRetry_def)

lemma readLoop_enough_chk:
  assumes "n \<le> length (concat cs)"
  shows "\<exists>chk' cs'. readLoop crc cal cs f n got chk = ((Inr (got @ take n (concat cs)), chk'), Reader cs' f)"
  using readLoop_enough [OF assms, of crc cal f got chk] by blast

lemma readFullChk_enough:
  assumes "n \<le> length (pending r)"
  shows "\<exists>chk' r'. readFullChk crc cal (c, r) n = (Inr (take n (pending r)), chk', r')"
  using readLoop_enough_chk [of n "chunks r" crc cal "failure r" "[]" c] assms
  by (auto simp: readFullChk_def pending_def)

lemma doUploadPart_reliable:
  assumes rel: "reliable ops" and sz: "0 \<le> sz" "sz \<le> 2 ^ 32"
  shows "\<exists>r part c w'.
      doUploadPart (traced ops) srckey off sz key uploadID num cal (tr, w) =
        Inr ((part, c, None),
             (tr @ [CGet srckey off sz (Inr r),
                    CUploadPart key uploadID (num + 1) (take (nat sz) (pending r)) (part, None)], w')) \<and>
      nat sz \<le> length (pending r)"
proof -
  from reliable_get [OF rel] obtain r w1 where g: "SrcGet ops srckey off sz w = (Inr r, w1)" and len: "nat sz \<le> length (pending r)"
    by blast
  from readFullChk_enough [OF len] obtain chk r' where
    rf: "readFullChk (crc32Update ops) cal (0, r) (nat sz) = (Inr (take (nat sz) (pending r)), chk, r')"
    by blast
  let ?data = "take (nat sz) (pending r)"
  obtain p e w2 where u: "UploadPart ops key uploadID (num + 1) ?data w1 = ((p, e), w2)"
    by (cases "UploadPart ops key uploadID (num + 1) ?data w1") auto
  from reliable_upload [OF rel] have "snd (fst (UploadPart ops key uploadID (num + 1) ?data w1)) = None" .
  with u have e: "e = None" by simp
  have att: "uploadAttempt (traced ops) srckey off sz key uploadID num cal ((None, 0), (tr, w)) =
      (None, ((p, chk), (tr @ [CGet srckey off sz (Inr r),
                                CUploadPart key uploadID (num + 1) ?data (p, None)], w2)))"
    using g rf u e by (simp add: uploadAttempt_def traced_def record_call_def)
  show ?thesis
    using sz len tryN_first [of "uploadAttempt (traced ops) srckey off sz key uploadID num cal", OF att]
    by (auto simp: doUploadPart_def dynAlloc_def)
qed

lemma numParts_eq:
  assumes sz: "1 \<le> sz" "sz \<le> 2 ^ 62" and ps: "0 < ps"
  shows "numParts sz ps = Inr ((sz - 1) div ps + 1)"
proof -
  let ?d = "(sz - 1) div ps"
  have d0: "0 \<le> ?d" using sz ps by (simp add: pos_imp_zdiv_nonneg_iff)
  have "?d * 1 \<le> ?d * ps" using d0 ps by (intro mult_left_mono) auto
  also have "\<dots> = (sz - 1) - (sz - 1) mod ps" by (simp add: minus_mod_eq_div_mult)
  also have "\<dots> \<le> sz - 1" using pos_mod_sign [OF ps, of "sz - 1"] by linarith
  finally have dle: "?d \<le> sz - 1" by simp
  have "wrap64 (sz - 1) = sz - 1" using sz by (intro wrap64_id) auto
  moreover have "wrap64 ?d = ?d" using d0 dle sz by (intro wrap64_id) auto
  moreover have "wrap64 (?d + 1) = ?d + 1" using d0 dle sz by (intro wrap64_id) auto
  ultimately show ?thesis using ps sz d0 by (simp add: numParts_def quo_nonneg)
qed

lemma tiling:
  assumes sz: "1 \<le> sz" and ps: "0 < (ps::int)" and i: "0 \<le> i" "i < (sz - 1) div ps + 1"
  shows "i * ps < sz"
    and "i = (sz - 1) div ps \<Longrightarrow> sz - i * ps \<le> ps"
    and "i \<noteq> (sz - 1) div ps \<Longrightarrow> ps \<le> sz - i * ps"
proof -
  let ?d = "(sz - 1) div ps"
  have a: "?d * ps \<le> sz - 1" using ps by (rule int_div_mult_le)
  have b: "sz - 1 < (?d + 1) * ps"
    using pos_mod_bound [OF ps, of "sz - 1"] by (simp add: algebra_simps minus_mod_eq_mult_div [symmetric] minus_mod_eq_div_mult [symmetric])
  have "i * ps \<le> ?d * ps" using i ps by (intro mult_right_mono) auto
  with a show "i * ps < sz" by simp
  show "i = ?d \<Longrightarrow> sz - i * ps \<le> ps" using b by (simp add: algebra_simps)
  show "i \<noteq> ?d \<Longrightarrow> ps \<le> sz - i * ps"
  proof -
    assume "i \<noteq> ?d"
    then have "i + 1 \<le> ?d" using i by simp
    then have "(i + 1) * ps \<le> ?d * ps" using ps by (intro mult_right_mono) auto
    with a show ?thesis by (simp add: algebra_simps)
  qed
qed

declare rangeLoop.simps [simp del]

lemma rangeLoop_reliable:
  assumes rel: "reliable ops" and ps: "0 < ps" "ps \<le> 2 ^ 32" and sz: "1 \<le> sz" "sz \<le> 2 ^ 32"
    and off: "0 \<le> off" "off \<le> 2 ^ 62" and n: "n = (sz - 1) div ps + 1"
  shows "i \<le> nat n \<Longrightarrow> length parts = nat n \<Longrightarrow>
    \<exists>rs new c' w'.
      rangeLoop (traced ops) key off sz tmpkey up ps n (\<lambda>i. False) cal i parts c first (tr, w) =
        Inr (None, take i parts @ new, c',
             (tr @ concat (map (\<lambda>(j, r, p). partCalls key off sz tmpkey (UploadID up) ps j r p)
                           (zip [i ..< nat n] (zip rs new))), w')) \<and>
      length rs = nat n - i \<and> length new = nat n - i \<and>
      list_all (\<lambda>(j, r). nat (min ps (sz - int j * ps)) \<le> length (pending r)) (zip [i ..< nat n] rs)"
proof (induction "nat n - i" arbitrary: i parts c first tr w)
  case 0
  then have "\<not> int i < n" by simp
  moreover have "[i ..< nat n] = []" using 0 by simp
  moreover have "take i parts = parts" using 0 by simp
  ultimately show ?case by (simp add: rangeLoop.simps [of _ _ _ _ _ _ _ _ _ _ i])
next
  case (Suc k)
  then have lt: "int i < n" by simp
  have i0: "0 \<le> int i" by simp
  note t = tiling [OF sz(1) ps(1) i0 lt [unfolded n]]
  let ?len = "if int i = n - 1 then wrap64 (sz - wrap64 (int i * ps)) else ps"
  have ips: "int i * ps < 2 ^ 32" using t(1) sz by simp
  have ip0: "0 \<le> int i * ps" using ps by simp
  have w1: "wrap64 (int i * ps) = int i * ps" using ips ip0 by (intro wrap64_id) auto
  have w2: "wrap64 (sz - int i * ps) = sz - int i * ps" using t(1) sz ip0 by (intro wrap64_id) auto
  have w3: "wrap64 (off + int i * ps) = off + int i * ps" using ips off ip0 by (intro wrap64_id) auto
  have "?len = (if int i = n - 1 then sz - int i * ps else ps)" by (simp only: w1 w2)
  also have "\<dots> = min ps (sz - int i * ps)"
  proof (cases "int i = (sz - 1) div ps")
    case True
    with t(2) show ?thesis by (simp only: n) simp
  next
    case False
    with t(3) show ?thesis by (simp only: n) simp
  qed
  finally have len: "?len = min ps (sz - int i * ps)" .
  have lenb: "0 \<le> min ps (sz - int i * ps)" "min ps (sz - int i * ps) \<le> 2 ^ 32"
    using t(1) ps by auto
  from doUploadPart_reliable [OF rel lenb, of key "off + int i * ps" tmpkey "UploadID up" "int i" cal tr w]
  obtain r part ck w1 where
    up: "doUploadPart (traced ops) key (off + int i * ps) (min ps (sz - int i * ps)) tmpkey (UploadID up)
           (int i) cal (tr, w) =
         Inr ((part, ck, None), (tr @ partCalls key off sz tmpkey (UploadID up) ps i r part, w1))"
    and dl: "nat (min ps (sz - int i * ps)) \<le> length (pending r)"
    by (auto simp: partCalls_def)
  have k: "k = nat n - Suc i" using Suc(2) by simp
  have il: "i < length parts" using Suc.prems(2) lt by simp
  have "\<exists>rs new c' w'.
      rangeLoop (traced ops) key off sz tmpkey up ps n (\<lambda>i. False) cal (Suc i) (parts[i := part])
            (if cal then (if first then ck else CRC32Combine (traced ops) c ck (min ps (sz - int i * ps))) else c)
            (if cal then False else first)
            (tr @ partCalls key off sz tmpkey (UploadID up) ps i r part, w1) =
        Inr (None, take (Suc i) (parts[i := part]) @ new, c',
             ((tr @ partCalls key off sz tmpkey (UploadID up) ps i r part) @
              concat (map (\<lambda>(j, r, p). partCalls key off sz tmpkey (UploadID up) ps j r p)
                           (zip [Suc i ..< nat n] (zip rs new))), w')) \<and>
      length rs = nat n - Suc i \<and> length new = nat n - Suc i \<and>
      list_all (\<lambda>(j, r). nat (min ps (sz - int j * ps)) \<le> length (pending r)) (zip [Suc i ..< nat n] rs)"
  proof (rule Suc(1) [OF k])
    show "Suc i \<le> nat n" using lt by simp
    show "length (parts[i := part]) = nat n" using Suc.prems(2) by simp
  qed
  then obtain rs new c' w' where
    rec: "rangeLoop (traced ops) key off sz tmpkey up ps n (\<lambda>i. False) cal (Suc i) (parts[i := part])
            (if cal then (if first then ck else CRC32Combine (traced ops) c ck (min ps (sz - int i * ps))) else c)
            (if cal then False else first)
            (tr @ partCalls key off sz tmpkey (UploadID up) ps i r part, w1) =
        Inr (None, take (Suc i) (parts[i := part]) @ new, c',
             ((tr @ partCalls key off sz tmpkey (UploadID up) ps i r part) @
              concat (map (\<lambda>(j, r, p). partCalls key off sz tmpkey (UploadID up) ps j r p)
                           (zip [Suc i ..< nat n] (zip rs new))), w'))"
    and ls: "length rs = nat n - Suc i" "length new = nat n - Suc i"
    and la: "list_all (\<lambda>(j, r). nat (min ps (sz - int j * ps)) \<le> length (pending r)) (zip [Suc i ..< nat n] rs)"
    by blast
  have upt: "[i ..< nat n] = i # [Suc i ..< nat n]" using lt by (simp add: upt_conv_Cons)
  have tk: "take (Suc i) (parts[i := part]) @ new = take i parts @ (part # new)"
    using il by (simp add: take_Suc_conv_app_nth)
  have "rangeLoop (traced ops) key off sz tmpkey up ps n (\<lambda>i. False) cal i parts c first (tr, w) =
      Inr (None, take i parts @ (part # new), c',
             (tr @ concat (map (\<lambda>(j, r, p). partCalls key off sz tmpkey (UploadID up) ps j r p)
                           (zip [i ..< nat n] (zip (r # rs) (part # new)))), w'))"
    by (subst rangeLoop.simps) (simp add: lt Let_def len w1 w3 up rec upt tk del: upt_Suc)
  moreover have "length (r # rs) = nat n - i" "length (part # new) = nat n - i" using ls lt by simp_all
  moreover have "list_all (\<lambda>(j, r). nat (min ps (sz - int j * ps)) \<le> length (pending r))
      (zip [i ..< nat n] (r # rs))"
    using dl la by (simp add: upt del: upt_Suc)
  ultimately show ?case by blast
qed

lemma int_div_le_self: "0 \<le> a \<Longrightarrow> 1 \<le> (b::int) \<Longrightarrow> a div b \<le> a"
proof -
  assume a: "0 \<le> a" and b: "1 \<le> b"
  have q0: "0 \<le> a div b" using a b by (simp add: pos_imp_zdiv_nonneg_iff)
  have "a div b * 1 \<le> a div b * b" using q0 b by (intro mult_left_mono) auto
  also have "\<dots> \<le> a" using b by (intro int_div_mult_le) simp
  finally show ?thesis by simp
qed

lemma choosePartSize_pos:
  assumes sz: "1 \<le> sz" "sz \<le> 2 ^ 62" and mc: "1 \<le> MaxCount u"
    and fit: "minPart u * MaxCount u < 2 ^ 63" "0 \<le> MinPartSize u"
  shows "\<exists>ps. choosePartSize u sz = Inr ps \<and> 0 < ps \<and>
           (ps = minPart u \<or> ps = roundMiB (sz div MaxCount u))"
proof (cases "sz \<le> minPart u * MaxCount u")
  case True
  have "0 < minPart u" using fit(2) by (simp add: minPart_def defaultPartSize_def)
  with choosePartSize_small [OF mc fit True] show ?thesis by simp
next
  case False
  then have big: "minPart u * MaxCount u < sz" by simp
  have p0: "0 < minPart u" using fit(2) by (simp add: minPart_def defaultPartSize_def)
  have "minPart u \<le> sz div MaxCount u" using mc big by (intro int_le_div) auto
  with p0 roundMiB_ge [of "sz div MaxCount u"] have "0 < roundMiB (sz div MaxCount u)" by simp
  with choosePartSize_large [OF sz mc fit big] show ?thesis by simp
qed

lemma choosePartSize_4G:
  assumes sz: "1 \<le> sz" "sz \<le> 2 ^ 32" and mc: "1 \<le> MaxCount u"
    and fit: "minPart u * MaxCount u < 2 ^ 63" "0 \<le> MinPartSize u" "MinPartSize u \<le> 2 ^ 32"
  shows "\<exists>ps. choosePartSize u sz = Inr ps \<and> 0 < ps \<and> ps \<le> 2 ^ 32"
proof -
  have sz62: "sz \<le> 2 ^ 62" using sz(2) by simp
  from choosePartSize_pos [OF sz(1) sz62 mc fit(1,2)] obtain ps where
    c: "choosePartSize u sz = Inr ps" "0 < ps" "ps = minPart u \<or> ps = roundMiB (sz div MaxCount u)"
    by blast
  have "minPart u \<le> 2 ^ 32" using fit(3) by (simp add: minPart_def defaultPartSize_def)
  moreover have "roundMiB (sz div MaxCount u) \<le> 2 ^ 32"
  proof -
    have "sz div MaxCount u \<le> sz" using sz mc by (intro int_div_le_self) auto
    then have "roundMiB (sz div MaxCount u) \<le> roundMiB (2 ^ 32)" using sz(2) by (intro roundMiB_mono) simp
    then show ?thesis by (simp add: roundMiB_def ceilDiv_def)
  qed
  ultimately show ?thesis using c by auto
qed

text \<open>
  C7. On a store without failures, for a part of \<open>sz\<close> bytes (\<open>1 \<le> sz \<le> 2 ^ 32\<close>) at
  offset \<open>off\<close> that does not find \<open>abort\<close> closed, \<open>doCopyRange\<close> returns no error and the
  calls it makes on the stores, with what they return, are the following. If \<open>sz\<close> is at
  most 32 MiB or the destination does not support \<open>UploadPartCopy\<close>: one \<open>Get\<close> of the range
  of the part, then one \<open>UploadPart\<close> to the parent upload, as part \<open>num + 1\<close>, of the \<open>sz\<close>
  bytes read from the reader that \<open>Get\<close> returned; the part returned is the one \<open>UploadPart\<close>
  returned. Otherwise: \<open>CreateMultipartUpload\<close> of the key \<open>key.partN\<close> (\<open>N\<close> is \<open>num\<close> in
  decimal), which returns an upload \<open>up\<close>; for every part \<open>j\<close> of the range under the part
  size \<open>ps\<close> chosen for \<open>up\<close>, in increasing order, a \<open>Get\<close> of \<open>min ps (sz - j * ps)\<close> bytes
  at \<open>off + j * ps\<close> and an \<open>UploadPart\<close> to \<open>up\<close>, as part \<open>j + 1\<close>, of the bytes read from
  the reader that this \<open>Get\<close> returned; \<open>CompleteUpload\<close> of \<open>up\<close> with the parts that these
  \<open>UploadPart\<close> calls returned, in order; a single \<open>UploadPartCopy\<close> of the whole of
  \<open>key.partN\<close> to the parent upload, as part \<open>num + 1\<close>, whose part is the one returned;
  \<open>Delete\<close> of \<open>key.partN\<close>.
\<close>

theorem doCopyRange_transfer:
  assumes rel: "reliable ops" and sz: "1 \<le> sz" "sz \<le> 2 ^ 32" and off: "0 \<le> off" "off \<le> 2 ^ 62"
  shows
    "(sz \<le> 32 * 2 ^ 20 \<or> \<not> IsSupportUploadPartCopy (DstLimits ops) \<longrightarrow>
        (\<exists>r part c w'.
           doCopyRange (traced ops) key off sz upload num (\<lambda>i. False) cal ([], w) =
             Inr ((part, c, None),
                  ([CGet key off sz (Inr r),
                    CUploadPart key (UploadID upload) (num + 1) (take (nat sz) (pending r)) (part, None)],
                   w')) \<and>
           nat sz \<le> length (pending r))) \<and>
     (\<not> (sz \<le> 32 * 2 ^ 20 \<or> \<not> IsSupportUploadPartCopy (DstLimits ops)) \<longrightarrow>
        (\<exists>up ps rs parts part c e w'.
           choosePartSize up sz = Inr ps \<and> 0 < ps \<and>
           doCopyRange (traced ops) key off sz upload num (\<lambda>i. False) cal ([], w) =
             Inr ((part, c, None),
                  (CCreate (key @ ''.part'' @ itoa num) (Inr up) #
                   concat (map (\<lambda>(j, r, p). partCalls key off sz (key @ ''.part'' @ itoa num) (UploadID up) ps j r p)
                             (zip [0 ..< nat ((sz - 1) div ps + 1)] (zip rs parts))) @
                   [CComplete (key @ ''.part'' @ itoa num) (UploadID up) parts None,
                    CUploadPartCopy key (UploadID upload) (num + 1) (key @ ''.part'' @ itoa num) 0 sz
                      (part, None),
                    CDelete (key @ ''.part'' @ itoa num) e], w')) \<and>
           length rs = nat ((sz - 1) div ps + 1) \<and> length parts = nat ((sz - 1) div ps + 1) \<and>
           list_all (\<lambda>(j, r). nat (min ps (sz - int j * ps)) \<le> length (pending r))
             (zip [0 ..< nat ((sz - 1) div ps + 1)] rs)))"
proof (intro conjI impI)
  assume direct: "sz \<le> 32 * 2 ^ 20 \<or> \<not> IsSupportUploadPartCopy (DstLimits ops)"
  have sz0: "0 \<le> sz" using sz by simp
  from doUploadPart_reliable [OF rel sz0 sz(2), of key off key "UploadID upload" num cal "[]" w] direct
  show "\<exists>r part c w'.
           doCopyRange (traced ops) key off sz upload num (\<lambda>i. False) cal ([], w) =
             Inr ((part, c, None),
                  ([CGet key off sz (Inr r),
                    CUploadPart key (UploadID upload) (num + 1) (take (nat sz) (pending r)) (part, None)],
                   w')) \<and>
           nat sz \<le> length (pending r)"
    by (simp add: doCopyRange_def traced_def [where ops = ops, THEN arg_cong, of DstLimits])
next
  define tmp where "tmp = key @ ''.part'' @ itoa num"
  assume staged: "\<not> (sz \<le> 32 * 2 ^ 20 \<or> \<not> IsSupportUploadPartCopy (DstLimits ops))"
  from reliable_create [OF rel, of tmp w] obtain up w1 where
    cr: "CreateMultipartUpload ops tmp w = (Inr up, w1)" and
    u: "1 \<le> MaxCount up" "0 \<le> MinPartSize up" "MinPartSize up \<le> 2 ^ 32" "minPart up * MaxCount up < 2 ^ 63"
    by blast
  let ?create = "\<lambda>(up :: MultipartUpload option, w). case CreateMultipartUpload (traced ops) tmp w of
                                   (Inl e, w') \<Rightarrow> (Some e, (None, w'))
                                 | (Inr u, w') \<Rightarrow> (None, (Some u, w'))"
  have "?create (None, ([], w)) = (None, (Some up, ([CCreate tmp (Inr up)], w1)))"
    using cr by (simp add: traced_def record_call_def)
  from tryN_first [of ?create, OF this]
  have t1: "tryN 3 ?create (None, ([], w)) = (None, (Some up, ([CCreate tmp (Inr up)], w1)), [])" .
  from choosePartSize_4G [OF sz u(1) u(4) u(2) u(3)] obtain ps where
    ps: "choosePartSize up sz = Inr ps" "0 < ps" "ps \<le> 2 ^ 32" by blast
  let ?n = "(sz - 1) div ps + 1"
  have sz62: "sz \<le> 2 ^ 62" using sz(2) by simp
  have np: "numParts sz ps = Inr ?n" using sz(1) sz62 ps(2) by (rule numParts_eq)
  have "0 \<le> (sz - 1) div ps" using sz(1) ps(2) by (simp add: pos_imp_zdiv_nonneg_iff)
  then have n0: "\<not> ?n < 0" by simp
  have "\<exists>rs new c' w'.
      rangeLoop (traced ops) key off sz tmp up ps ?n (\<lambda>i. False) cal 0 (replicate (nat ?n) None) 0 True
          ([CCreate tmp (Inr up)], w1) =
        Inr (None, take 0 (replicate (nat ?n) None) @ new, c',
             ([CCreate tmp (Inr up)] @ concat (map (\<lambda>(j, r, p). partCalls key off sz tmp (UploadID up) ps j r p)
                           (zip [0 ..< nat ?n] (zip rs new))), w')) \<and>
      length rs = nat ?n - 0 \<and> length new = nat ?n - 0 \<and>
      list_all (\<lambda>(j, r). nat (min ps (sz - int j * ps)) \<le> length (pending r)) (zip [0 ..< nat ?n] rs)"
    by (rule rangeLoop_reliable [OF rel ps(2,3) sz off refl]) simp_all
  then obtain rs parts c w2 where
    rl: "rangeLoop (traced ops) key off sz tmp up ps ?n (\<lambda>i. False) cal 0 (replicate (nat ?n) None) 0 True
           ([CCreate tmp (Inr up)], w1) =
         Inr (None, parts, c,
              ([CCreate tmp (Inr up)] @ concat (map (\<lambda>(j, r, p). partCalls key off sz tmp (UploadID up) ps j r p)
                           (zip [0 ..< nat ?n] (zip rs parts))), w2))"
    and ln: "length rs = nat ?n" "length parts = nat ?n"
    and la: "list_all (\<lambda>(j, r). nat (min ps (sz - int j * ps)) \<le> length (pending r)) (zip [0 ..< nat ?n] rs)"
    by auto
  define tr2 where "tr2 = [CCreate tmp (Inr up)] @ concat (map (\<lambda>(j, r, p). partCalls key off sz tmp (UploadID up) ps j r p)
                           (zip [0 ..< nat ?n] (zip rs parts)))"
  note rl' = rl [folded tr2_def]
  obtain e3 w3 where co: "CompleteUpload ops tmp (UploadID up) parts w2 = (e3, w3)"
    by (cases "CompleteUpload ops tmp (UploadID up) parts w2")
  with reliable_complete [OF rel, of tmp "UploadID up" parts w2] have e3: "e3 = None" by simp
  have "CompleteUpload (traced ops) tmp (UploadID up) parts (tr2, w2) =
      (None, (tr2 @ [CComplete tmp (UploadID up) parts None], w3))"
    using co e3 by (simp add: traced_def record_call_def)
  from tryN_first [of "CompleteUpload (traced ops) tmp (UploadID up) parts", OF this]
  have t2: "tryN 3 (CompleteUpload (traced ops) tmp (UploadID up) parts) (tr2, w2) =
      (None, (tr2 @ [CComplete tmp (UploadID up) parts None], w3), [])" .
  obtain p4 e4 w4 where cp: "UploadPartCopy ops key (UploadID upload) (num + 1) tmp 0 sz w3 = ((p4, e4), w4)"
    by (cases "UploadPartCopy ops key (UploadID upload) (num + 1) tmp 0 sz w3") auto
  with reliable_copy [OF rel, of key "UploadID upload" "num + 1" tmp 0 sz w3] have e4: "e4 = None" by simp
  let ?copy = "\<lambda>(part :: Part option, w). case UploadPartCopy (traced ops) key (UploadID upload) (num + 1) tmp 0 sz w of
                                              ((p, err), w') \<Rightarrow> (err, (p, w'))"
  let ?tr3 = "tr2 @ [CComplete tmp (UploadID up) parts None]"
  have "?copy (None, (?tr3, w3)) =
      (None, (p4, (?tr3 @ [CUploadPartCopy key (UploadID upload) (num + 1) tmp 0 sz (p4, None)], w4)))"
    using cp e4 by (simp add: traced_def record_call_def)
  from tryN_first [of ?copy, OF this]
  have t3: "tryN 3 ?copy (None, (?tr3, w3)) =
      (None, (p4, (?tr3 @ [CUploadPartCopy key (UploadID upload) (num + 1) tmp 0 sz (p4, None)], w4)), [])" .
  obtain e5 w5 where de: "DstDelete ops tmp w4 = (e5, w5)" by (cases "DstDelete ops tmp w4")
  have lim: "DstLimits (traced ops) = DstLimits ops" by (simp add: traced_def)
  have del: "snd (DstDelete (traced ops) tmp (tr, w4)) = (tr @ [CDelete tmp e5], w5)" for tr
    using de by (simp add: traced_def record_call_def)
  have "doCopyRange (traced ops) key off sz upload num (\<lambda>i. False) cal ([], w) =
      Inr ((p4, c, None), (?tr3 @ [CUploadPartCopy key (UploadID upload) (num + 1) tmp 0 sz (p4, None),
                                    CDelete tmp e5], w5))"
    unfolding doCopyRange_def Let_def tmp_def [symmetric]
    using staged by (simp add: lim t1 ps(1) np n0 rl' t2 t3 del)
  then have "doCopyRange (traced ops) key off sz upload num (\<lambda>i. False) cal ([], w) =
      Inr ((p4, c, None), (CCreate tmp (Inr up) #
                   concat (map (\<lambda>(j, r, p). partCalls key off sz tmp (UploadID up) ps j r p)
                             (zip [0 ..< nat ((sz - 1) div ps + 1)] (zip rs parts))) @
                   [CComplete tmp (UploadID up) parts None,
                    CUploadPartCopy key (UploadID upload) (num + 1) tmp 0 sz (p4, None),
                    CDelete tmp e5], w5))"
    by (simp add: tr2_def)
  with ps(1,2) ln la show "\<exists>up ps rs parts part c e w'.
           choosePartSize up sz = Inr ps \<and> 0 < ps \<and>
           doCopyRange (traced ops) key off sz upload num (\<lambda>i. False) cal ([], w) =
             Inr ((part, c, None),
                  (CCreate (key @ ''.part'' @ itoa num) (Inr up) #
                   concat (map (\<lambda>(j, r, p). partCalls key off sz (key @ ''.part'' @ itoa num) (UploadID up) ps j r p)
                             (zip [0 ..< nat ((sz - 1) div ps + 1)] (zip rs parts))) @
                   [CComplete (key @ ''.part'' @ itoa num) (UploadID up) parts None,
                    CUploadPartCopy key (UploadID upload) (num + 1) (key @ ''.part'' @ itoa num) 0 sz
                      (part, None),
                    CDelete (key @ ''.part'' @ itoa num) e], w')) \<and>
           length rs = nat ((sz - 1) div ps + 1) \<and> length parts = nat ((sz - 1) div ps + 1) \<and>
           list_all (\<lambda>(j, r). nat (min ps (sz - int j * ps)) \<le> length (pending r))
             (zip [0 ..< nat ((sz - 1) div ps + 1)] rs)"
    unfolding tmp_def [symmetric]
    by (intro exI [of _ up] exI [of _ ps] exI [of _ rs] exI [of _ parts] exI [of _ p4] exI [of _ c]
        exI [of _ e5] exI [of _ w5]) simp
qed

theorem doCopyRange_transfer_witness:
  "reliable (sampleStore True) \<and>
   doCopyRange (traced (sampleStore True)) ''a'' 5 3
       \<lparr>MinPartSize = 5 * 2 ^ 20, MaxCount = 10000, UploadID = ''u''\<rparr> 0 (\<lambda>i. False) False ([], ()) =
     Inr ((Some \<lparr>PartNum = 1, PartLen = 3, ETag = []\<rparr>, 0, None),
          ([CGet ''a'' 5 3 (Inr (Reader [[5, 6, 7]] None)),
            CUploadPart ''a'' ''u'' 1 [5, 6, 7] (Some \<lparr>PartNum = 1, PartLen = 3, ETag = []\<rparr>, None)], ())) \<and>
   (\<exists>up ps rs parts part c e w'.
      choosePartSize up (32 * 2 ^ 20 + 1) = Inr ps \<and> 0 < ps \<and>
      doCopyRange (traced (sampleStore True)) ''a'' 0 (32 * 2 ^ 20 + 1)
          \<lparr>MinPartSize = 5 * 2 ^ 20, MaxCount = 10000, UploadID = ''u''\<rparr> 0 (\<lambda>i. False) False ([], ()) =
        Inr ((part, c, None),
             (CCreate ''a.part0'' (Inr up) #
              concat (map (\<lambda>(j, r, p). partCalls ''a'' 0 (32 * 2 ^ 20 + 1) ''a.part0'' (UploadID up) ps j r p)
                        (zip [0 ..< nat ((32 * 2 ^ 20 + 1 - 1) div ps + 1)] (zip rs parts))) @
              [CComplete ''a.part0'' (UploadID up) parts None,
               CUploadPartCopy ''a'' ''u'' (0 + 1) ''a.part0'' 0 (32 * 2 ^ 20 + 1) (part, None),
               CDelete ''a.part0'' e], w')) \<and>
      length rs = nat ((32 * 2 ^ 20 + 1 - 1) div ps + 1) \<and>
      length parts = nat ((32 * 2 ^ 20 + 1 - 1) div ps + 1) \<and>
      list_all (\<lambda>(j, r). nat (min ps (32 * 2 ^ 20 + 1 - int j * ps)) \<le> length (pending r))
        (zip [0 ..< nat ((32 * 2 ^ 20 + 1 - 1) div ps + 1)] rs))"
proof -
  have r: "reliable (sampleStore True)"
    by (simp add: reliable_def sampleStore_def minPart_def pending_def)
  have direct: "doCopyRange (traced (sampleStore True)) ''a'' 5 3
       \<lparr>MinPartSize = 5 * 2 ^ 20, MaxCount = 10000, UploadID = ''u''\<rparr> 0 (\<lambda>i. False) False ([], ()) =
     Inr ((Some \<lparr>PartNum = 1, PartLen = 3, ETag = []\<rparr>, 0, None),
          ([CGet ''a'' 5 3 (Inr (Reader [[5, 6, 7]] None)),
            CUploadPart ''a'' ''u'' 1 [5, 6, 7] (Some \<lparr>PartNum = 1, PartLen = 3, ETag = []\<rparr>, None)], ()))"
    by (simp add: doCopyRange_def doUploadPart_def dynAlloc_def tryN_def tryLoop.simps uploadAttempt_def
        traced_def sampleStore_def record_call_def readFullChk_def shouldRetry_def eval_nat_numeral)
  have lim: "IsSupportUploadPartCopy (DstLimits (sampleStore True))" by (simp add: sampleStore_def)
  have it: "''a'' @ ''.part'' @ itoa 0 = ''a.part0''" by (simp add: itoa_def digits.simps)
  from doCopyRange_transfer [OF r, of "32 * 2 ^ 20 + 1" 0 "''a''"
      "\<lparr>MinPartSize = 5 * 2 ^ 20, MaxCount = 10000, UploadID = ''u''\<rparr>" 0 False "()"]
  have staged: "\<exists>up ps rs parts part c e w'.
      choosePartSize up (32 * 2 ^ 20 + 1) = Inr ps \<and> 0 < ps \<and>
      doCopyRange (traced (sampleStore True)) ''a'' 0 (32 * 2 ^ 20 + 1)
          \<lparr>MinPartSize = 5 * 2 ^ 20, MaxCount = 10000, UploadID = ''u''\<rparr> 0 (\<lambda>i. False) False ([], ()) =
        Inr ((part, c, None),
             (CCreate ''a.part0'' (Inr up) #
              concat (map (\<lambda>(j, r, p). partCalls ''a'' 0 (32 * 2 ^ 20 + 1) ''a.part0'' (UploadID up) ps j r p)
                        (zip [0 ..< nat ((32 * 2 ^ 20 + 1 - 1) div ps + 1)] (zip rs parts))) @
              [CComplete ''a.part0'' (UploadID up) parts None,
               CUploadPartCopy ''a'' ''u'' (0 + 1) ''a.part0'' 0 (32 * 2 ^ 20 + 1) (part, None),
               CDelete ''a.part0'' e], w')) \<and>
      length rs = nat ((32 * 2 ^ 20 + 1 - 1) div ps + 1) \<and>
      length parts = nat ((32 * 2 ^ 20 + 1 - 1) div ps + 1) \<and>
      list_all (\<lambda>(j, r). nat (min ps (32 * 2 ^ 20 + 1 - int j * ps)) \<le> length (pending r))
        (zip [0 ..< nat ((32 * 2 ^ 20 + 1 - 1) div ps + 1)] rs)"
    unfolding it using lim by simp
  from r direct staged show ?thesis by (intro conjI)
qed

subsection \<open>C2: the checksum of a copy\<close>



















lemma slice_all: "slice content 0 (int (length content)) = content"
  by (simp add: slice_def)

























end
